theory Spec2Isabelle
  imports Main "HOL-Library.Sublist"
begin

section \<open>Table-of-contents entries\<close>

text \<open>
  The script \<^verbatim>\<open>docs/combine_docs.py\<close> works on the value that \<^verbatim>\<open>yaml.safe_load\<close>
  returns for a \<^verbatim>\<open>_toctree.yml\<close> file: a list of mappings. A mapping carries the keys
  \<^verbatim>\<open>title\<close>, \<^verbatim>\<open>local\<close>, \<^verbatim>\<open>sections\<close> and \<^verbatim>\<open>isExpanded\<close>, each of which may be absent;
  a key that is absent is \<open>None\<close>. Titles and references are strings, and sections are
  lists of mappings again. Strings are byte strings (UTF-8).

  A table of contents is modelled at two levels. \<open>toc_entry\<close> is the value of a mapping, a
  tree; \<^verbatim>\<open>main\<close> is modelled on such values, that is, on files that \<^verbatim>\<open>yaml.safe_load\<close>
  reads without aliases. The mappings themselves are objects that the rewrite updates in
  place, and a YAML alias makes one object stand at two places of a table: section
  \<open>The rewrite in place\<close> below models the objects and their addresses, and the properties
  of the rewrite are proved there.
\<close>

datatype error =
  KeyError | IndexError | StopIteration | TypeError | YAMLError | RecursionError | OSError

datatype toc_entry =
  Entry (title: "string option") (local: "string option")
        (sections: "toc_entry list option") (isExpanded: "bool option")

type_synonym toc = "toc_entry list"

section \<open>\<^verbatim>\<open>rename_subpackage_toc\<close>\<close>

text \<open>
  \<^verbatim>\<open>
  def rename_subpackage_toc(subpackage, toc):
      for item in toc:
          for file in item["sections"]:
              if "local" in file:
                  file["local"] = f"{subpackage}/" + file["local"]
              else:
                  rename_subpackage_toc(subpackage, [file])
  \<close>
  \<open>rename_subpackage_toc\<close> is the outer loop and \<open>rename_sections\<close> the inner loop over
  \<^verbatim>\<open>item["sections"]\<close>. Looking up \<^verbatim>\<open>item["sections"]\<close> in a mapping without that key
  raises \<^verbatim>\<open>KeyError\<close>.

  Every recursive call takes a frame of the interpreter, and the interpreter raises
  \<^verbatim>\<open>RecursionError\<close> when its limit is reached (\<^verbatim>\<open>sys.getrecursionlimit()\<close>, 1000 frames
  unless changed, of which a few are in use when \<^verbatim>\<open>main\<close> calls the function). The
  parameter \<open>n\<close> is the number of calls that the interpreter still allows inside the
  running one; the call that \<^verbatim>\<open>main\<close> makes always gets its frame.

  This is the rewrite on values: it returns the rewritten table. It is what the update in
  place does to a table in which no mapping stands at two places; the update in place
  itself is \<open>rename_subpackage_toc_in_place\<close> below.
\<close>

fun rename_subpackage_toc :: "nat \<Rightarrow> string \<Rightarrow> toc \<Rightarrow> error + toc"
  and rename_sections :: "nat \<Rightarrow> string \<Rightarrow> toc \<Rightarrow> error + toc"
where
  "rename_subpackage_toc n subpackage [] = Inr []"
| "rename_subpackage_toc n subpackage (Entry t l None x # toc) = Inl KeyError"
| "rename_subpackage_toc n subpackage (Entry t l (Some files) x # toc) =
     (case rename_sections n subpackage files of
        Inl e \<Rightarrow> Inl e
      | Inr files' \<Rightarrow>
          (case rename_subpackage_toc n subpackage toc of
             Inl e \<Rightarrow> Inl e
           | Inr toc' \<Rightarrow> Inr (Entry t l (Some files') x # toc')))"
| "rename_sections n subpackage [] = Inr []"
| "rename_sections n subpackage (Entry t (Some l) s x # files) =
     (case rename_sections n subpackage files of
        Inl e \<Rightarrow> Inl e
      | Inr files' \<Rightarrow> Inr (Entry t (Some (subpackage @ ''/'' @ l)) s x # files'))"
| "rename_sections n subpackage (Entry t None s x # files) =
     (case (if n = 0 then Inl RecursionError
            else rename_subpackage_toc (n - 1) subpackage [Entry t None s x]) of
        Inl e \<Rightarrow> Inl e
      | Inr file' \<Rightarrow>
          (case rename_sections n subpackage files of
             Inl e \<Rightarrow> Inl e
           | Inr files' \<Rightarrow> Inr (file' @ files')))"

section \<open>The rewrite in place\<close>

text \<open>
  The mappings as objects: a heap gives the mapping that stands at each address, and a
  list of mappings is the list of their addresses. The lists are never changed by the
  rewrite. Line 32 replaces the value under \<^verbatim>\<open>local\<close> in the object itself, so an object
  that is reached twice is prefixed twice; an object that contains itself is entered until
  the interpreter has no frame left.
\<close>

type_synonym addr = nat

record dict =
  key_title :: "string option"
  key_local :: "string option"
  key_sections :: "addr list option"
  key_isExpanded :: "bool option"

type_synonym heap = "addr \<Rightarrow> dict"

fun rename_subpackage_toc_in_place :: "nat \<Rightarrow> string \<Rightarrow> addr list \<Rightarrow> heap \<Rightarrow> error + heap"
  and rename_sections_in_place :: "nat \<Rightarrow> string \<Rightarrow> addr list \<Rightarrow> heap \<Rightarrow> error + heap"
where
  "rename_subpackage_toc_in_place n subpackage [] h = Inr h"
| "rename_subpackage_toc_in_place n subpackage (item # toc) h =
     (case key_sections (h item) of
        None \<Rightarrow> Inl KeyError
      | Some files \<Rightarrow>
          (case rename_sections_in_place n subpackage files h of
             Inl e \<Rightarrow> Inl e
           | Inr h' \<Rightarrow> rename_subpackage_toc_in_place n subpackage toc h'))"
| "rename_sections_in_place n subpackage [] h = Inr h"
| "rename_sections_in_place n subpackage (file # files) h =
     (case key_local (h file) of
        Some l \<Rightarrow>
          rename_sections_in_place n subpackage files
            (h(file := (h file)\<lparr>key_local := Some (subpackage @ ''/'' @ l)\<rparr>))
      | None \<Rightarrow>
          if n = 0 then Inl RecursionError
          else
            (case rename_subpackage_toc_in_place (n - 1) subpackage [file] h of
               Inl e \<Rightarrow> Inl e
             | Inr h' \<Rightarrow> rename_sections_in_place n subpackage files h'))"

section \<open>Strings, lists and paths of the Python library\<close>

text \<open>
  \<^verbatim>\<open>str.split(sep)\<close> for a non-empty separator: the string is scanned from the left, cut at
  each occurrence of \<open>sep\<close>, and the scan goes on behind the occurrence. \<open>cur\<close> holds the
  piece read so far. The script passes the literal \<^verbatim>\<open>"Optimum "\<close> only (pathlib splits at
  \<^verbatim>\<open>"/"\<close>), so the \<^verbatim>\<open>ValueError\<close> of an empty separator cannot arise; the guard
  \<open>sep \<noteq> []\<close> keeps the function total.
\<close>

fun split_from :: "string \<Rightarrow> string \<Rightarrow> string \<Rightarrow> string list" where
  "split_from sep cur [] = [cur]"
| "split_from sep cur (c # cs) =
     (if sep \<noteq> [] \<and> prefix sep (c # cs)
      then cur # split_from sep [] (drop (length sep) (c # cs))
      else split_from sep (cur @ [c]) cs)"

definition str_split :: "string \<Rightarrow> string \<Rightarrow> string list" where
  "str_split sep s = split_from sep [] s"

text \<open>\<^verbatim>\<open>xs[-1]\<close> raises \<^verbatim>\<open>IndexError\<close> on an empty list.\<close>

definition last_item :: "'a list \<Rightarrow> error + 'a" where
  "last_item xs = (if xs = [] then Inl IndexError else Inr (last xs))"

text \<open>
  \<^verbatim>\<open>list.insert(i, x)\<close> for \<open>i \<ge> 0\<close>: the item goes before the element at index \<open>i\<close>, and
  at the end when the list has fewer than \<open>i\<close> elements (\<open>take\<close> and \<open>drop\<close> clamp the
  same way).
\<close>

definition list_insert :: "nat \<Rightarrow> 'a \<Rightarrow> 'a list \<Rightarrow> 'a list" where
  "list_insert i x xs = take i xs @ [x] @ drop i xs"

text \<open>
  A \<^verbatim>\<open>pathlib.Path\<close> is represented by its \<^verbatim>\<open>parts\<close>. \<open>Path\<close> parses a string the way
  \<^verbatim>\<open>PurePosixPath\<close> does: empty components and \<^verbatim>\<open>"."\<close> are dropped, a leading slash is the
  root part (exactly two leading slashes are kept as \<^verbatim>\<open>"//"\<close>). \<open>path_str\<close> is \<^verbatim>\<open>str(path)\<close>
  and \<open>parent\<close> is \<^verbatim>\<open>path.parent\<close>.
\<close>

type_synonym path = "string list"

definition Path :: "string \<Rightarrow> path" where
  "Path s =
     (if take 2 s = ''//'' \<and> take 3 s \<noteq> ''///'' then [''//'']
      else if take 1 s = ''/'' then [''/''] else [])
     @ filter (\<lambda>c. c \<noteq> [] \<and> c \<noteq> ''.'') (str_split ''/'' s)"

fun join_parts :: "path \<Rightarrow> string" where
  "join_parts [] = []"
| "join_parts [p] = p"
| "join_parts (p # q # ps) = p @ ''/'' @ join_parts (q # ps)"

definition path_str :: "path \<Rightarrow> string" where
  "path_str p =
     (case p of
        [] \<Rightarrow> ''.''
      | r # ps \<Rightarrow> if r = ''/'' \<or> r = ''//'' then r @ join_parts ps else join_parts p)"

definition parent :: "path \<Rightarrow> path" where
  "parent p = (if p = [''/''] \<or> p = [''//''] then p else butlast p)"

section \<open>The file system\<close>

text \<open>
  The script changes the file system through \<^verbatim>\<open>mkdir\<close>, \<^verbatim>\<open>shutil.copyfile\<close> and
  \<^verbatim>\<open>yaml.safe_dump\<close>, and reads it through \<^verbatim>\<open>Path.rglob\<close> and \<^verbatim>\<open>yaml.safe_load\<close>. The
  state of the file system is the history of the operations performed on it so far, oldest
  first. What a read returns, and whether the operating system carries an operation out,
  is fixed by the machine the script runs on and may depend on that history; the machine
  is the parameter \<open>m\<close> of every function below. \<open>rglob m h dir pat\<close> lists the matches
  of \<^verbatim>\<open>dir.rglob(pat)\<close> in the order of the directory walk, and \<open>safe_load m h p\<close> is
  the table of contents parsed from file \<open>p\<close>, or \<open>None\<close> when the file does not hold a
  list of mappings of the shape above. \<open>refuses m h ev\<close> says that the operating system
  refuses the operation \<open>ev\<close> after the history \<open>h\<close> (missing permission, full disk, a
  directory where a file is expected): Python raises \<^verbatim>\<open>OSError\<close> or one of its subclasses,
  and the operation does not enter the history. \<open>frames m\<close> is the number of nested calls
  of \<^verbatim>\<open>rename_subpackage_toc\<close> that the interpreter allows inside the call \<^verbatim>\<open>main\<close> makes.
\<close>

datatype event =
    Mkdir path
  | Copyfile path path
  | Safe_dump path toc

record machine =
  rglob :: "event list \<Rightarrow> path \<Rightarrow> string \<Rightarrow> path list"
  safe_load :: "event list \<Rightarrow> path \<Rightarrow> toc option"
  refuses :: "event list \<Rightarrow> event \<Rightarrow> bool"
  frames :: nat

section \<open>\<^verbatim>\<open>rename_copy_subpackage_html_paths\<close>\<close>

text \<open>
  \<^verbatim>\<open>
  subpackage_html_paths = list(subpackage_path.rglob("*.html"))
  language_folder_level = 3
  for html_path in subpackage_html_paths:
      language_folder = html_path.parts[language_folder_level]
      relative_path_from_language_folder = Path(*html_path.parts[language_folder_level + 1 :])
      new_path_in_optimum = Path(
          f"{optimum_path}/optimum/{version}/{language_folder}/{subpackage}/{relative_path_from_language_folder}")
      new_path_in_optimum.parent.mkdir(parents=True, exist_ok=True)
      shutil.copyfile(html_path, new_path_in_optimum)
  \<close>
  An exception ends the loop, and what was copied before stays copied: the functions
  return the history reached together with the exception raised, if any. The exceptions
  are the \<^verbatim>\<open>IndexError\<close> of \<^verbatim>\<open>parts[3]\<close> on a path of fewer than four parts, and the
  \<^verbatim>\<open>OSError\<close> of a \<^verbatim>\<open>mkdir\<close> or \<^verbatim>\<open>copyfile\<close> that the operating system refuses. The
  parts behind index 3 of a path are parts already, so \<^verbatim>\<open>Path(*parts[4:])\<close> has exactly
  these parts.
\<close>

definition language_folder_level :: nat where
  "language_folder_level = 3"

definition new_path_in_optimum :: "string \<Rightarrow> path \<Rightarrow> string \<Rightarrow> path \<Rightarrow> path" where
  "new_path_in_optimum subpackage optimum_path version html_path =
     (let language_folder = html_path ! language_folder_level;
          relative_path_from_language_folder = drop (language_folder_level + 1) html_path
      in Path (path_str optimum_path @ ''/optimum/'' @ version @ ''/'' @ language_folder
               @ ''/'' @ subpackage @ ''/'' @ path_str relative_path_from_language_folder))"

fun copy_html_paths ::
  "machine \<Rightarrow> string \<Rightarrow> path \<Rightarrow> string \<Rightarrow> path list \<Rightarrow> event list
     \<Rightarrow> event list \<times> error option"
where
  "copy_html_paths m subpackage optimum_path version [] h = (h, None)"
| "copy_html_paths m subpackage optimum_path version (html_path # rest) h =
     (if length html_path \<le> language_folder_level then (h, Some IndexError)
      else
        let new = new_path_in_optimum subpackage optimum_path version html_path in
        if refuses m h (Mkdir (parent new)) then (h, Some OSError)
        else if refuses m (h @ [Mkdir (parent new)]) (Copyfile html_path new)
        then (h @ [Mkdir (parent new)], Some OSError)
        else copy_html_paths m subpackage optimum_path version rest
               (h @ [Mkdir (parent new), Copyfile html_path new]))"

definition rename_copy_subpackage_html_paths ::
  "machine \<Rightarrow> string \<Rightarrow> path \<Rightarrow> path \<Rightarrow> string \<Rightarrow> event list \<Rightarrow> event list \<times> error option"
where
  "rename_copy_subpackage_html_paths m subpackage subpackage_path optimum_path version h =
     copy_html_paths m subpackage optimum_path version
       (rglob m h subpackage_path ''*.html'') h"

section \<open>\<^verbatim>\<open>add_neuron_doc\<close>\<close>

text \<open>
  \<^verbatim>\<open>
  base_toc.insert(1, {
      "sections": [{"local": "docs/optimum-neuron/index", "title": "<U+1F917> Optimum Neuron"}],
      "title": "AWS Trainium/Inferentia",
      "isExpanded": False})
  \<close>
  The first character of the inner title is U+1F917, four bytes in UTF-8.
\<close>

definition add_neuron_doc :: "toc \<Rightarrow> toc" where
  "add_neuron_doc base_toc =
     list_insert 1
       (Entry (Some ''AWS Trainium/Inferentia'') None
          (Some [Entry (Some ([CHR 0xF0, CHR 0x9F, CHR 0xA4, CHR 0x97] @ '' Optimum Neuron''))
                   (Some ''docs/optimum-neuron/index'') None None])
          (Some False))
       base_toc"

section \<open>\<^verbatim>\<open>main\<close>\<close>

text \<open>
  The state of \<^verbatim>\<open>main\<close> is the table of contents of Optimum, \<^verbatim>\<open>base_toc\<close>, and the
  history of the file system.
\<close>

record state =
  base_toc :: toc
  history :: "event list"

definition optimum_path :: path where
  "optimum_path = Path ''optimum-doc-build''"

text \<open>
  Line 139, \<^verbatim>\<open>subpackage_toc[0]["title"] = subpackage_toc[0]["title"].split("Optimum ")[-1]\<close>:
  \<^verbatim>\<open>IndexError\<close> on an empty table of contents, \<^verbatim>\<open>KeyError\<close> when the first entry has
  no title.
\<close>

definition shorten_title :: "toc \<Rightarrow> error + toc" where
  "shorten_title subpackage_toc =
     (case subpackage_toc of
        [] \<Rightarrow> Inl IndexError
      | Entry t l s x # rest \<Rightarrow>
          (case t of
             None \<Rightarrow> Inl KeyError
           | Some long \<Rightarrow>
               (case last_item (str_split ''Optimum '' long) of
                  Inl e \<Rightarrow> Inl e
                | Inr short \<Rightarrow> Inr (Entry (Some short) l s x # rest))))"

text \<open>
  Lines 122 to 139, the \<^verbatim>\<open>else\<close> branch of the loop body up to the title: copy the HTML
  files, load the subpackage's table of contents (\<^verbatim>\<open>next\<close> raises \<^verbatim>\<open>StopIteration\<close> when
  no \<^verbatim>\<open>_toctree.yml\<close> is found), rename its sections and shorten its title. The result is
  \<^verbatim>\<open>subpackage_toc\<close> as it stands at line 140.
\<close>

definition load_subpackage_toc ::
  "machine \<Rightarrow> string \<Rightarrow> string \<Rightarrow> event list \<Rightarrow> event list \<times> (error + toc)"
where
  "load_subpackage_toc m version subpackage h =
     (let subpackage_path = Path (subpackage @ ''-doc-build'') in
      case rename_copy_subpackage_html_paths m subpackage subpackage_path optimum_path version h of
        (h', Some e) \<Rightarrow> (h', Inl e)
      | (h', None) \<Rightarrow>
          (case rglob m h' subpackage_path ''_toctree.yml'' of
             [] \<Rightarrow> (h', Inl StopIteration)
           | subpackage_toc_path # _ \<Rightarrow>
               (case safe_load m h' subpackage_toc_path of
                  None \<Rightarrow> (h', Inl YAMLError)
                | Some subpackage_toc \<Rightarrow>
                    (case rename_subpackage_toc (frames m) subpackage subpackage_toc of
                       Inl e \<Rightarrow> (h', Inl e)
                     | Inr renamed \<Rightarrow> (h', shorten_title renamed)))))"

text \<open>The body of the loop of \<^verbatim>\<open>main\<close>, lines 118 to 142.\<close>

definition loop_body :: "machine \<Rightarrow> string \<Rightarrow> string \<Rightarrow> state \<Rightarrow> state \<times> error option" where
  "loop_body m version subpackage s =
     (if subpackage = ''neuron'' then (s\<lparr>base_toc := add_neuron_doc (base_toc s)\<rparr>, None)
      else
        case load_subpackage_toc m version subpackage (history s) of
          (h', Inl e) \<Rightarrow> (s\<lparr>history := h'\<rparr>, Some e)
        | (h', Inr subpackage_toc) \<Rightarrow>
            if subpackage \<noteq> ''graphcore'' then
              (case subpackage_toc of
                 [] \<Rightarrow> (s\<lparr>history := h'\<rparr>, Some IndexError)
               | first # _ \<Rightarrow>
                   (\<lparr>base_toc = list_insert 1 first (base_toc s), history = h'\<rparr>, None))
            else (s\<lparr>history := h'\<rparr>, None))"

text \<open>
  \<^verbatim>\<open>for subpackage in args.subpackages[::-1]\<close>: \<open>for_each\<close> runs the body over a list and
  stops at the first exception; \<open>main_loop\<close> runs it over the reversed list.
\<close>

fun for_each :: "machine \<Rightarrow> string \<Rightarrow> string list \<Rightarrow> state \<Rightarrow> state \<times> error option" where
  "for_each m version [] s = (s, None)"
| "for_each m version (subpackage # rest) s =
     (case loop_body m version subpackage s of
        (s', Some e) \<Rightarrow> (s', Some e)
      | (s', None) \<Rightarrow> for_each m version rest s')"

definition main_loop ::
  "machine \<Rightarrow> string \<Rightarrow> string list \<Rightarrow> state \<Rightarrow> state \<times> error option"
where
  "main_loop m version subpackages s = for_each m version (rev subpackages) s"

text \<open>
  \<^verbatim>\<open>main\<close>: load the table of contents of Optimum, run the loop, write the table back
  (\<^verbatim>\<open>OSError\<close> when the file cannot be written).
  The command line gives \<^verbatim>\<open>args.subpackages\<close> (\<^verbatim>\<open>None\<close> when the option is left out,
  and slicing \<^verbatim>\<open>None\<close> raises \<^verbatim>\<open>TypeError\<close>) and \<^verbatim>\<open>args.version\<close>.
\<close>

record args =
  subpackages :: "string list option"
  version :: string

definition main :: "machine \<Rightarrow> args \<Rightarrow> state \<times> error option" where
  "main m a =
     (case rglob m [] optimum_path ''_toctree.yml'' of
        [] \<Rightarrow> (\<lparr>base_toc = [], history = []\<rparr>, Some StopIteration)
      | base_toc_path # _ \<Rightarrow>
          (case safe_load m [] base_toc_path of
             None \<Rightarrow> (\<lparr>base_toc = [], history = []\<rparr>, Some YAMLError)
           | Some loaded \<Rightarrow>
               (case subpackages a of
                  None \<Rightarrow> (\<lparr>base_toc = loaded, history = []\<rparr>, Some TypeError)
                | Some names \<Rightarrow>
                    (case main_loop m (version a) names \<lparr>base_toc = loaded, history = []\<rparr> of
                       (s, Some e) \<Rightarrow> (s, Some e)
                     | (s, None) \<Rightarrow>
                         if refuses m (history s) (Safe_dump base_toc_path (base_toc s))
                         then (s, Some OSError)
                         else
                           (s\<lparr>history := history s @ [Safe_dump base_toc_path (base_toc s)]\<rparr>,
                            None)))))"

section \<open>Notions used in the properties\<close>

text \<open>
  The data model of the specification: a node is a leaf (it has \<^verbatim>\<open>local\<close>) or an internal
  node (it has \<^verbatim>\<open>sections\<close>), never both, at every level of the tree.
\<close>

fun leaf_xor_internal :: "toc_entry \<Rightarrow> bool" where
  "leaf_xor_internal (Entry t l s x) =
     (case (l, s) of
        (Some r, None) \<Rightarrow> True
      | (None, Some files) \<Rightarrow> (\<forall>file \<in> set files. leaf_xor_internal file)
      | _ \<Rightarrow> False)"

text \<open>The \<^verbatim>\<open>local\<close> references of a tree, in document order.\<close>

fun locals :: "toc_entry \<Rightarrow> string list" where
  "locals (Entry t l s x) =
     (case l of None \<Rightarrow> [] | Some r \<Rightarrow> [r])
     @ (case s of None \<Rightarrow> [] | Some files \<Rightarrow> concat (map locals files))"

text \<open>
  The section rewrite as the specification words it: an entry with a \<^verbatim>\<open>local\<close> reference
  has it prefixed with the subpackage and a slash; otherwise the rewrite goes into its
  sections.
\<close>

fun prefix_leaves :: "string \<Rightarrow> toc_entry \<Rightarrow> toc_entry" where
  "prefix_leaves subpackage (Entry t (Some r) s x) =
     Entry t (Some (subpackage @ ''/'' @ r)) s x"
| "prefix_leaves subpackage (Entry t None s x) =
     Entry t None (map_option (map (prefix_leaves subpackage)) s) x"

text \<open>
  What is left of a tree when every \<^verbatim>\<open>local\<close> string is blanked: titles, \<^verbatim>\<open>isExpanded\<close>
  flags, which keys are present, and the nesting.
\<close>

fun skeleton :: "toc_entry \<Rightarrow> toc_entry" where
  "skeleton (Entry t l s x) =
     Entry t (map_option (\<lambda>r. []) l) (map_option (map skeleton) s) x"

text \<open>
  How many levels of \<^verbatim>\<open>sections\<close> are nested in an entry: none in an entry without
  sections, one more than in its deepest section otherwise.
\<close>

fun height :: "toc_entry \<Rightarrow> nat" where
  "height (Entry t l None x) = 0"
| "height (Entry t l (Some files) x) = Suc (fold max (map height files) 0)"

text \<open>
  A table of objects without shared mappings: a tree whose nodes are the objects, each with
  its address. \<open>addrs\<close> lists the addresses of a tree, \<open>holds h o\<close> says that the heap
  holds the objects of the tree \<open>o\<close> at their addresses, and \<open>value_of\<close> is the value of
  the tree. A table has no shared mapping when the addresses of its trees are distinct.
\<close>

datatype otree =
  Obj (ident: addr) "string option" "string option" "otree list option" "bool option"

fun addrs :: "otree \<Rightarrow> addr list" where
  "addrs (Obj a t l s x) =
     a # (case s of None \<Rightarrow> [] | Some files \<Rightarrow> concat (map addrs files))"

fun holds :: "heap \<Rightarrow> otree \<Rightarrow> bool" where
  "holds h (Obj a t l s x) =
     (h a = \<lparr>key_title = t, key_local = l, key_sections = map_option (map ident) s,
             key_isExpanded = x\<rparr> \<and>
      (case s of None \<Rightarrow> True | Some files \<Rightarrow> (\<forall>file \<in> set files. holds h file)))"

fun value_of :: "otree \<Rightarrow> toc_entry" where
  "value_of (Obj a t l s x) = Entry t l (map_option (map value_of) s) x"

text \<open>The section rewrite as the specification words it, on a tree of objects.\<close>

fun prefix_leaves_of :: "string \<Rightarrow> otree \<Rightarrow> otree" where
  "prefix_leaves_of subpackage (Obj a t (Some r) s x) =
     Obj a t (Some (subpackage @ ''/'' @ r)) s x"
| "prefix_leaves_of subpackage (Obj a t None s x) =
     Obj a t None (map_option (map (prefix_leaves_of subpackage)) s) x"

text \<open>
  A chain of objects: internal nodes at the addresses and with the titles \<open>us\<close>, each with
  one section, ending in the leaf at address \<open>a\<close> titled \<open>t\<close> with reference \<open>r\<close>. Its
  depth is \<open>length us + 1\<close>.
\<close>

fun chain_of :: "(addr \<times> string) list \<Rightarrow> addr \<Rightarrow> string \<Rightarrow> string \<Rightarrow> otree" where
  "chain_of [] a t r = Obj a (Some t) (Some r) None None"
| "chain_of ((b, u) # us) a t r = Obj b (Some u) None (Some [chain_of us a t r]) None"

text \<open>
  Heaps to run the rewrite on. \<open>no_dict\<close> is the mapping without keys. \<open>example_heap\<close>
  holds the table Optimum Acme of four objects: Intro and Guides are the sections of
  Optimum Acme, and Use is the section of Guides. In \<open>shared_heap\<close> the leaf Intro stands
  twice in the sections of Optimum Acme. \<open>home_heap\<close> holds the leaf Home alone, and
  \<open>chain_heap\<close> the chain Optimum Acme, Guides, Use of depth 3.
\<close>

definition no_dict :: dict where
  "no_dict = \<lparr>key_title = None, key_local = None, key_sections = None, key_isExpanded = None\<rparr>"

definition example_heap :: heap where
  "example_heap =
     (\<lambda>a. no_dict)
       (0 := \<lparr>key_title = Some ''Optimum Acme'', key_local = None,
              key_sections = Some [1, 2], key_isExpanded = None\<rparr>,
        1 := \<lparr>key_title = Some ''Intro'', key_local = Some ''intro'',
              key_sections = None, key_isExpanded = None\<rparr>,
        2 := \<lparr>key_title = Some ''Guides'', key_local = None,
              key_sections = Some [3], key_isExpanded = None\<rparr>,
        3 := \<lparr>key_title = Some ''Use'', key_local = Some ''use'',
              key_sections = None, key_isExpanded = None\<rparr>)"

definition shared_heap :: heap where
  "shared_heap =
     (\<lambda>a. no_dict)
       (0 := \<lparr>key_title = Some ''Optimum Acme'', key_local = None,
              key_sections = Some [1, 1], key_isExpanded = None\<rparr>,
        1 := \<lparr>key_title = Some ''Intro'', key_local = Some ''intro'',
              key_sections = None, key_isExpanded = None\<rparr>)"

definition chain_heap :: heap where
  "chain_heap =
     (\<lambda>a. no_dict)
       (0 := \<lparr>key_title = Some ''Optimum Acme'', key_local = None,
              key_sections = Some [1], key_isExpanded = None\<rparr>,
        1 := \<lparr>key_title = Some ''Guides'', key_local = None,
              key_sections = Some [2], key_isExpanded = None\<rparr>,
        2 := \<lparr>key_title = Some ''Use'', key_local = Some ''use'',
              key_sections = None, key_isExpanded = None\<rparr>)"

definition home_heap :: heap where
  "home_heap =
     (\<lambda>a. no_dict)
       (0 := \<lparr>key_title = Some ''Home'', key_local = Some ''index'',
              key_sections = None, key_isExpanded = None\<rparr>)"

text \<open>\<open>sep\<close> occurs in \<open>s\<close> at index \<open>i\<close>: \<^verbatim>\<open>s[i : i + len(sep)] == sep\<close>.\<close>

definition occurs_at :: "string \<Rightarrow> nat \<Rightarrow> string \<Rightarrow> bool" where
  "occurs_at sep i s = (take (length sep) (drop i s) = sep)"

text \<open>
  A machine to run the script on: every directory holds one \<^verbatim>\<open>_toctree.yml\<close> and one HTML
  page five levels deep. The table of contents of Optimum has the single entry Home, the one
  of \<^verbatim>\<open>acme-doc-build\<close> is titled Optimum Acme, and every other one is titled after its
  directory. The operating system refuses nothing, and 990 nested calls are allowed.
  \<open>shallow_disk\<close> holds two pages in every directory, the second one right below the
  directory, and \<open>full_disk\<close> is the same with an operating system that refuses every
  \<^verbatim>\<open>mkdir\<close>.
\<close>

definition example_disk :: machine where
  "example_disk =
     \<lparr>rglob = (\<lambda>h dir pat.
        if pat = ''_toctree.yml'' then [dir @ [''_toctree.yml'']]
        else if pat = ''*.html'' then [dir @ [''optimum.x'', ''main'', ''en'', ''index.html'']]
        else []),
      safe_load = (\<lambda>h p.
        if p = [''optimum-doc-build'', ''_toctree.yml'']
        then Some [Entry (Some ''Home'') (Some ''index'') None None]
        else if p = [''acme-doc-build'', ''_toctree.yml'']
        then Some [Entry (Some ''Optimum Acme'') None
                     (Some [Entry (Some ''Intro'') (Some ''intro'') None None]) None]
        else Some [Entry (Some (''Optimum '' @ hd p)) None
                     (Some [Entry (Some ''Intro'') (Some ''intro'') None None]) None]),
      refuses = (\<lambda>h ev. False),
      frames = 990\<rparr>"



section \<open>The section rewrite on values\<close>

lemma fold_max_ge: "a \<le> fold max xs (a::nat)"
  by (induction xs arbitrary: a) (auto intro: le_trans[OF max.cobounded2])

lemma fold_max_mem: "x \<in> set xs \<Longrightarrow> x \<le> fold max xs (a::nat)"
proof (induction xs arbitrary: a)
  case Nil
  then show ?case by simp
next
  case (Cons y ys)
  show ?case
  proof (cases "x = y")
    case True
    have "max y a \<le> fold max ys (max y a)" by (rule fold_max_ge)
    with True show ?thesis by simp
  next
    case False
    with Cons show ?thesis by simp
  qed
qed

lemma height_section:
  "height (Entry t l (Some files) x) \<le> Suc n \<Longrightarrow> file \<in> set files \<Longrightarrow> height file \<le> n"
  using fold_max_mem[of "height file" "map height files" 0] by simp

lemma rename_prefix_leaves:
  "(\<forall>e \<in> set toc. leaf_xor_internal e \<and> sections e \<noteq> None \<and> height e \<le> Suc n) \<longrightarrow>
     rename_subpackage_toc n sp toc = Inr (map (prefix_leaves sp) toc)"
  "(\<forall>e \<in> set files. leaf_xor_internal e \<and> height e \<le> n) \<longrightarrow>
     rename_sections n sp files = Inr (map (prefix_leaves sp) files)"
proof (induction n sp toc and n sp files rule: rename_subpackage_toc_rename_sections.induct)
  case (1 n subpackage)
  show ?case by simp
next
  case (2 n subpackage t l x toc)
  show ?case by simp
next
  case (3 n subpackage t l files x toc)
  show ?case
  proof
    assume a: "\<forall>e \<in> set (Entry t l (Some files) x # toc).
                 leaf_xor_internal e \<and> sections e \<noteq> None \<and> height e \<le> Suc n"
    then have l: "l = None" by (cases l) simp_all
    have hn: "height (Entry t l (Some files) x) \<le> Suc n" using a by simp
    have "\<forall>e \<in> set files. leaf_xor_internal e \<and> height e \<le> n"
      using a l height_section[OF hn] by simp
    with "3.IH"(1) have f: "rename_sections n subpackage files
                              = Inr (map (prefix_leaves subpackage) files)" by blast
    have "\<forall>e \<in> set toc. leaf_xor_internal e \<and> sections e \<noteq> None \<and> height e \<le> Suc n"
      using a by simp
    with "3.IH"(2)[OF f] have "rename_subpackage_toc n subpackage toc
                                 = Inr (map (prefix_leaves subpackage) toc)" by blast
    with f l show "rename_subpackage_toc n subpackage (Entry t l (Some files) x # toc)
                     = Inr (map (prefix_leaves subpackage) (Entry t l (Some files) x # toc))"
      by simp
  qed
next
  case (4 n subpackage)
  show ?case by simp
next
  case (5 n subpackage t l s x files)
  show ?case
  proof
    assume a: "\<forall>e \<in> set (Entry t (Some l) s x # files). leaf_xor_internal e \<and> height e \<le> n"
    then have "\<forall>e \<in> set files. leaf_xor_internal e \<and> height e \<le> n" by simp
    with "5.IH" have "rename_sections n subpackage files
                        = Inr (map (prefix_leaves subpackage) files)" by blast
    then show "rename_sections n subpackage (Entry t (Some l) s x # files)
                 = Inr (map (prefix_leaves subpackage) (Entry t (Some l) s x # files))"
      by simp
  qed
next
  case (6 n subpackage t s x files)
  show ?case
  proof
    assume a: "\<forall>e \<in> set (Entry t None s x # files). leaf_xor_internal e \<and> height e \<le> n"
    then obtain cs where s: "s = Some cs" by (cases s) simp_all
    have hn: "height (Entry t None s x) \<le> n" using a by simp
    then have n: "n \<noteq> 0" using s by auto
    have "\<forall>e \<in> set [Entry t None s x].
            leaf_xor_internal e \<and> sections e \<noteq> None \<and> height e \<le> Suc (n - 1)"
      using a s n by simp
    with "6.IH"(1)[OF n] have e: "rename_subpackage_toc (n - 1) subpackage [Entry t None s x]
              = Inr (map (prefix_leaves subpackage) [Entry t None s x])" by blast
    then have "(if n = 0 then Inl RecursionError
                else rename_subpackage_toc (n - 1) subpackage [Entry t None s x])
              = Inr (map (prefix_leaves subpackage) [Entry t None s x])"
      using n by simp
    moreover have "\<forall>e \<in> set files. leaf_xor_internal e \<and> height e \<le> n" using a by simp
    ultimately have "rename_sections n subpackage files
                       = Inr (map (prefix_leaves subpackage) files)"
      using "6.IH"(2) by blast
    with e n show "rename_sections n subpackage (Entry t None s x # files)
                 = Inr (map (prefix_leaves subpackage) (Entry t None s x # files))"
      by simp
  qed
qed

lemma locals_prefix_leaves:
  "leaf_xor_internal e \<Longrightarrow>
     locals (prefix_leaves sp e) = map (\<lambda>r. sp @ ''/'' @ r) (locals e)"
  by (induction e rule: leaf_xor_internal.induct)
     (auto split: option.splits simp: map_concat intro!: arg_cong[where f=concat])

lemma locals_prefix_leaves_list:
  "\<forall>e \<in> set T. leaf_xor_internal e \<Longrightarrow>
     concat (map locals (map (prefix_leaves sp) T))
       = map (\<lambda>r. sp @ ''/'' @ r) (concat (map locals T))"
  by (induction T) (simp_all add: locals_prefix_leaves)

lemma rename_skeleton:
  "rename_subpackage_toc n sp toc = Inr toc' \<longrightarrow> map skeleton toc' = map skeleton toc"
  "rename_sections n sp files = Inr files' \<longrightarrow> map skeleton files' = map skeleton files"
proof (induction n sp toc and n sp files arbitrary: toc' and files'
       rule: rename_subpackage_toc_rename_sections.induct)
  case (1 n subpackage)
  show ?case by simp
next
  case (2 n subpackage t l x toc)
  show ?case by simp
next
  case (3 n subpackage t l files x toc)
  show ?case
  proof
    assume a: "rename_subpackage_toc n subpackage (Entry t l (Some files) x # toc) = Inr toc'"
    then obtain f' where f: "rename_sections n subpackage files = Inr f'"
      by (cases "rename_sections n subpackage files") auto
    with a obtain r' where r: "rename_subpackage_toc n subpackage toc = Inr r'"
      by (cases "rename_subpackage_toc n subpackage toc") auto
    from a f r have "toc' = Entry t l (Some f') x # r'" by simp
    moreover from "3.IH"(1) f have "map skeleton f' = map skeleton files" by simp
    moreover from "3.IH"(2)[OF f] r have "map skeleton r' = map skeleton toc" by simp
    ultimately show "map skeleton toc' = map skeleton (Entry t l (Some files) x # toc)" by simp
  qed
next
  case (4 n subpackage)
  show ?case by simp
next
  case (5 n subpackage t l s x files)
  show ?case
  proof
    assume a: "rename_sections n subpackage (Entry t (Some l) s x # files) = Inr files'"
    then obtain f' where f: "rename_sections n subpackage files = Inr f'"
      by (cases "rename_sections n subpackage files") auto
    from a f have "files' = Entry t (Some (subpackage @ ''/'' @ l)) s x # f'" by simp
    moreover from "5.IH" f have "map skeleton f' = map skeleton files" by simp
    ultimately show "map skeleton files' = map skeleton (Entry t (Some l) s x # files)" by simp
  qed
next
  case (6 n subpackage t s x files)
  show ?case
  proof
    assume a: "rename_sections n subpackage (Entry t None s x # files) = Inr files'"
    have n: "n \<noteq> 0" using a by (cases "n = 0") simp_all
    with a obtain e' where
      e: "rename_subpackage_toc (n - 1) subpackage [Entry t None s x] = Inr e'"
      by (cases "rename_subpackage_toc (n - 1) subpackage [Entry t None s x]") auto
    with a n obtain f' where f: "rename_sections n subpackage files = Inr f'"
      by (cases "rename_sections n subpackage files") auto
    from a n e f have "files' = e' @ f'" by simp
    moreover from "6.IH"(1)[OF n] e have "map skeleton e' = map skeleton [Entry t None s x]"
      by blast
    moreover have "map skeleton f' = map skeleton files"
    proof -
      have "(if n = 0 then Inl RecursionError
             else rename_subpackage_toc (n - 1) subpackage [Entry t None s x]) = Inr e'"
        using n e by simp
      from "6.IH"(2)[OF this] f show ?thesis by simp
    qed
    ultimately show "map skeleton files' = map skeleton (Entry t None s x # files)" by simp
  qed
qed


lemma rename_sections_chain:
  "length us \<le> n \<Longrightarrow>
     rename_sections n sp [value_of (chain_of us a t r)]
       = Inr [value_of (chain_of us a t (sp @ ''/'' @ r))]"
proof (induction us arbitrary: n)
  case Nil
  show ?case by simp
next
  case (Cons bu us)
  obtain b u where bu: "bu = (b, u)" by (cases bu)
  from Cons.prems have "n \<noteq> 0" "length us \<le> n - 1" by auto
  with Cons.IH[of "n - 1"] bu show ?case by simp
qed

section \<open>The section rewrite in place\<close>

lemma ident_prefix_leaves_of [simp]: "ident (prefix_leaves_of sp ob) = ident ob"
  by (cases "(sp, ob)" rule: prefix_leaves_of.cases) simp_all

lemma addrs_prefix_leaves_of [simp]: "addrs (prefix_leaves_of sp ob) = addrs ob"
  by (induction sp ob rule: prefix_leaves_of.induct)
     (auto split: option.splits intro!: arg_cong[where f=concat])

lemma value_of_prefix_leaves_of:
  "value_of (prefix_leaves_of sp ob) = prefix_leaves sp (value_of ob)"
  by (induction sp ob rule: prefix_leaves_of.induct)
     (auto simp: option.map_comp comp_def intro!: option.map_cong)

lemma holds_frame:
  "\<forall>a \<in> set (addrs ob). h' a = h a \<Longrightarrow> holds h' ob = holds h ob"
proof (induction ob rule: addrs.induct)
  case (1 a t l s x)
  have here: "h' a = h a" using "1.prems" by simp
  have below: "holds h' f = holds h f" if "s = Some files" "f \<in> set files"
    for files f
  proof -
    have "\<forall>b \<in> set (addrs f). h' b = h b" using "1.prems" that by auto
    with "1.IH"[OF that] show ?thesis .
  qed
  show ?case
  proof (cases s)
    case None
    with here show ?thesis by simp
  next
    case (Some files)
    with here below[OF Some] show ?thesis by auto
  qed
qed


lemma in_place_sections:
  assumes "\<forall>ob \<in> set os. holds h ob"
    and "\<forall>ob \<in> set os. leaf_xor_internal (value_of ob)"
    and "\<forall>ob \<in> set os. height (value_of ob) \<le> n"
    and "distinct (concat (map addrs os))"
  shows "\<exists>h'. rename_sections_in_place n sp (map ident os) h = Inr h' \<and>
           (\<forall>ob \<in> set os. holds h' (prefix_leaves_of sp ob)) \<and>
           (\<forall>a. a \<notin> set (concat (map addrs os)) \<longrightarrow> h' a = h a)"
  using assms
proof (induction "size_list size os" arbitrary: os n h rule: less_induct)
  case less
  show ?case
  proof (cases os)
    case Nil
    then show ?thesis by simp
  next
    case (Cons ob rest)
    obtain a t l s x where ob: "ob = Obj a t l s x" by (cases ob)
    have rest_small: "size_list size rest < size_list size os" using Cons by simp
    have rest_wf: "\<forall>ob \<in> set rest. leaf_xor_internal (value_of ob)"
      using less.prems(2) Cons by simp
    have rest_height: "\<forall>ob \<in> set rest. height (value_of ob) \<le> n"
      using less.prems(3) Cons by simp
    have rest_distinct: "distinct (concat (map addrs rest))"
      using less.prems(4) Cons by simp
    have apart: "set (addrs ob) \<inter> set (concat (map addrs rest)) = {}"
      using less.prems(4) Cons by simp
    have ob_distinct: "distinct (addrs ob)" using less.prems(4) Cons by simp
    have ob_holds: "holds h ob" using less.prems(1) Cons by simp
    have rest_holds: "\<forall>ob \<in> set rest. holds h ob" using less.prems(1) Cons by simp
    show ?thesis
    proof (cases l)
      case (Some r)
      have s: "s = None" using less.prems(2) Cons ob Some by (cases s) simp_all
      let ?h1 = "h(a := (h a)\<lparr>key_local := Some (sp @ ''/'' @ r)\<rparr>)"
      have ha: "h a = \<lparr>key_title = t, key_local = Some r, key_sections = None,
                       key_isExpanded = x\<rparr>"
        using ob_holds ob Some s by simp
      have step: "rename_sections_in_place n sp (map ident os) h
                    = rename_sections_in_place n sp (map ident rest) ?h1"
        using Cons ob ha by simp
      have a_rest: "a \<notin> set (concat (map addrs rest))" using apart ob by simp
      have "\<forall>ob' \<in> set rest. holds ?h1 ob'"
      proof
        fix ob' assume m: "ob' \<in> set rest"
        then have "a \<notin> set (addrs ob')" using a_rest by auto
        then have "\<forall>b \<in> set (addrs ob'). ?h1 b = h b" by auto
        then have "holds ?h1 ob' = holds h ob'" by (rule holds_frame)
        with rest_holds m show "holds ?h1 ob'" by simp
      qed
      from less.hyps[OF rest_small this rest_wf rest_height rest_distinct]
      obtain h' where h': "rename_sections_in_place n sp (map ident rest) ?h1 = Inr h'"
        "\<forall>ob \<in> set rest. holds h' (prefix_leaves_of sp ob)"
        "\<forall>b. b \<notin> set (concat (map addrs rest)) \<longrightarrow> h' b = ?h1 b"
        by blast
      have "h' a = ?h1 a" using h'(3) a_rest by blast
      then have "holds h' (prefix_leaves_of sp ob)" using ob Some s ha by simp
      moreover have "\<forall>b. b \<notin> set (concat (map addrs os)) \<longrightarrow> h' b = h b"
        using h'(3) Cons ob by auto
      ultimately show ?thesis using step h'(1,2) Cons by auto
    next
      case None
      then obtain cs where s: "s = Some cs"
        using less.prems(2) Cons ob by (cases s) simp_all
      have ha: "h a = \<lparr>key_title = t, key_local = None, key_sections = Some (map ident cs),
                       key_isExpanded = x\<rparr>"
        using ob_holds ob None s by simp
      have "height (value_of ob) \<le> n" using less.prems(3) Cons by simp
      then have hn: "height (Entry t None (Some (map value_of cs)) x) \<le> n"
        using ob None s by simp
      then have n: "n \<noteq> 0" by auto
      then have hn': "height (Entry t None (Some (map value_of cs)) x) \<le> Suc (n - 1)"
        using hn by simp
      have cs_small: "size_list size cs < size_list size os" using Cons ob s by simp
      have cs_holds: "\<forall>c \<in> set cs. holds h c" using ob_holds ob s by simp
      have cs_wf: "\<forall>c \<in> set cs. leaf_xor_internal (value_of c)"
        using less.prems(2) Cons ob None s by simp
      have cs_height: "\<forall>c \<in> set cs. height (value_of c) \<le> n - 1"
        using height_section[OF hn'] by auto
      have cs_distinct: "distinct (concat (map addrs cs))" using ob_distinct ob s by simp
      from less.hyps[OF cs_small cs_holds cs_wf cs_height cs_distinct]
      obtain h1 where h1: "rename_sections_in_place (n - 1) sp (map ident cs) h = Inr h1"
        "\<forall>c \<in> set cs. holds h1 (prefix_leaves_of sp c)"
        "\<forall>b. b \<notin> set (concat (map addrs cs)) \<longrightarrow> h1 b = h b"
        by blast
      have call: "rename_subpackage_toc_in_place (n - 1) sp [a] h = Inr h1"
        using ha h1(1) by simp
      have step: "rename_sections_in_place n sp (map ident os) h
                    = rename_sections_in_place n sp (map ident rest) h1"
        using Cons ob ha n call by simp
      have cs_addrs: "set (concat (map addrs cs)) \<subseteq> set (addrs ob)" using ob s by auto
      have "\<forall>ob' \<in> set rest. holds h1 ob'"
      proof
        fix ob' assume m: "ob' \<in> set rest"
        then have "set (addrs ob') \<inter> set (concat (map addrs cs)) = {}"
          using apart cs_addrs by auto
        then have "\<forall>b \<in> set (addrs ob'). b \<notin> set (concat (map addrs cs))" by blast
        then have "\<forall>b \<in> set (addrs ob'). h1 b = h b" using h1(3) by blast
        then have "holds h1 ob' = holds h ob'" by (rule holds_frame)
        with rest_holds m show "holds h1 ob'" by simp
      qed
      from less.hyps[OF rest_small this rest_wf rest_height rest_distinct]
      obtain h' where h': "rename_sections_in_place n sp (map ident rest) h1 = Inr h'"
        "\<forall>ob \<in> set rest. holds h' (prefix_leaves_of sp ob)"
        "\<forall>b. b \<notin> set (concat (map addrs rest)) \<longrightarrow> h' b = h1 b"
        by blast
      have a_rest: "a \<notin> set (concat (map addrs rest))" using apart ob by simp
      have a_cs: "a \<notin> set (concat (map addrs cs))" using ob_distinct ob s by simp
      have "h' a = h a" using h'(3) h1(3) a_rest a_cs by simp
      moreover have "\<forall>c \<in> set cs. holds h' (prefix_leaves_of sp c)"
      proof
        fix c assume m: "c \<in> set cs"
        then have "set (addrs c) \<subseteq> set (addrs ob)" using ob s by auto
        then have "\<forall>b \<in> set (addrs c). b \<notin> set (concat (map addrs rest))"
          using apart by blast
        then have "\<forall>b \<in> set (addrs (prefix_leaves_of sp c)). h' b = h1 b"
          using h'(3) by simp
        then have "holds h' (prefix_leaves_of sp c) = holds h1 (prefix_leaves_of sp c)"
          by (rule holds_frame)
        with h1(2) m show "holds h' (prefix_leaves_of sp c)" by simp
      qed
      ultimately have "holds h' (prefix_leaves_of sp ob)"
        using ob None s ha by (simp add: comp_def)
      moreover have "\<forall>b. b \<notin> set (concat (map addrs os)) \<longrightarrow> h' b = h b"
        using h'(3) h1(3) Cons ob s by auto
      ultimately show ?thesis using step h'(1,2) Cons by auto
    qed
  qed
qed

lemma in_place_items:
  assumes "\<forall>ob \<in> set os. holds h ob"
    and "\<forall>ob \<in> set os. leaf_xor_internal (value_of ob)"
    and "\<forall>ob \<in> set os. sections (value_of ob) \<noteq> None"
    and "\<forall>ob \<in> set os. height (value_of ob) \<le> Suc n"
    and "distinct (concat (map addrs os))"
  shows "\<exists>h'. rename_subpackage_toc_in_place n sp (map ident os) h = Inr h' \<and>
           (\<forall>ob \<in> set os. holds h' (prefix_leaves_of sp ob)) \<and>
           (\<forall>a. a \<notin> set (concat (map addrs os)) \<longrightarrow> h' a = h a)"
  using assms
proof (induction os arbitrary: h)
  case Nil
  show ?case by simp
next
  case (Cons ob rest)
  obtain a t l s x where ob: "ob = Obj a t l s x" by (cases ob)
  from Cons.prems(3) ob obtain cs where s: "s = Some cs" by (cases s) simp_all
  from Cons.prems(2) ob s have l: "l = None" by (cases l) simp_all
  have ha: "h a = \<lparr>key_title = t, key_local = None, key_sections = Some (map ident cs),
                   key_isExpanded = x\<rparr>"
    using Cons.prems(1) ob s l by simp
  have apart: "set (addrs ob) \<inter> set (concat (map addrs rest)) = {}"
    using Cons.prems(5) by simp
  have ob_distinct: "distinct (addrs ob)" using Cons.prems(5) by simp
  have hn: "height (Entry t None (Some (map value_of cs)) x) \<le> Suc n"
    using Cons.prems(4) ob s l by simp
  have cs_height: "\<forall>c \<in> set cs. height (value_of c) \<le> n"
    using height_section[OF hn] by auto
  have cs_holds: "\<forall>c \<in> set cs. holds h c" using Cons.prems(1) ob s by simp
  have cs_wf: "\<forall>c \<in> set cs. leaf_xor_internal (value_of c)"
    using Cons.prems(2) ob s l by simp
  have cs_distinct: "distinct (concat (map addrs cs))" using ob_distinct ob s by simp
  from in_place_sections[OF cs_holds cs_wf cs_height cs_distinct, of sp]
  obtain h1 where h1: "rename_sections_in_place n sp (map ident cs) h = Inr h1"
    "\<forall>c \<in> set cs. holds h1 (prefix_leaves_of sp c)"
    "\<forall>b. b \<notin> set (concat (map addrs cs)) \<longrightarrow> h1 b = h b"
    by blast
  have step: "rename_subpackage_toc_in_place n sp (map ident (ob # rest)) h
                = rename_subpackage_toc_in_place n sp (map ident rest) h1"
    using ob ha h1(1) by simp
  have cs_addrs: "set (concat (map addrs cs)) \<subseteq> set (addrs ob)" using ob s by auto
  have "\<forall>ob' \<in> set rest. holds h1 ob'"
  proof
    fix ob' assume m: "ob' \<in> set rest"
    then have "set (addrs ob') \<inter> set (concat (map addrs cs)) = {}"
      using apart cs_addrs by auto
    then have "\<forall>b \<in> set (addrs ob'). b \<notin> set (concat (map addrs cs))" by blast
    then have "\<forall>b \<in> set (addrs ob'). h1 b = h b" using h1(3) by blast
    then have "holds h1 ob' = holds h ob'" by (rule holds_frame)
    with Cons.prems(1) m show "holds h1 ob'" by simp
  qed
  moreover have "\<forall>ob \<in> set rest. leaf_xor_internal (value_of ob)"
    "\<forall>ob \<in> set rest. sections (value_of ob) \<noteq> None"
    "\<forall>ob \<in> set rest. height (value_of ob) \<le> Suc n"
    "distinct (concat (map addrs rest))"
    using Cons.prems by simp_all
  ultimately obtain h' where h':
    "rename_subpackage_toc_in_place n sp (map ident rest) h1 = Inr h'"
    "\<forall>ob \<in> set rest. holds h' (prefix_leaves_of sp ob)"
    "\<forall>b. b \<notin> set (concat (map addrs rest)) \<longrightarrow> h' b = h1 b"
    using Cons.IH[of h1] by blast
  have a_rest: "a \<notin> set (concat (map addrs rest))" using apart ob by simp
  have a_cs: "a \<notin> set (concat (map addrs cs))" using ob_distinct ob s by simp
  have "h' a = h a" using h'(3) h1(3) a_rest a_cs by simp
  moreover have "\<forall>c \<in> set cs. holds h' (prefix_leaves_of sp c)"
  proof
    fix c assume m: "c \<in> set cs"
    then have "set (addrs c) \<subseteq> set (addrs ob)" using ob s by auto
    then have "\<forall>b \<in> set (addrs c). b \<notin> set (concat (map addrs rest))"
      using apart by blast
    then have "\<forall>b \<in> set (addrs (prefix_leaves_of sp c)). h' b = h1 b"
      using h'(3) by simp
    then have "holds h' (prefix_leaves_of sp c) = holds h1 (prefix_leaves_of sp c)"
      by (rule holds_frame)
    with h1(2) m show "holds h' (prefix_leaves_of sp c)" by simp
  qed
  ultimately have "holds h' (prefix_leaves_of sp ob)"
    using ob l s ha by (simp add: comp_def)
  moreover have "\<forall>b. b \<notin> set (concat (map addrs (ob # rest))) \<longrightarrow> h' b = h b"
    using h'(3) h1(3) ob s by auto
  ultimately show ?case using step h'(1,2) by auto
qed

lemma in_place_sections_chain:
  assumes "holds h (chain_of us a t r)" and "length us \<le> n"
  shows "rename_sections_in_place n sp [ident (chain_of us a t r)] h
           = Inr (h(a := (h a)\<lparr>key_local := Some (sp @ ''/'' @ r)\<rparr>))"
  using assms
proof (induction us arbitrary: n)
  case Nil
  then have "key_local (h a) = Some r" by simp
  then show ?case by (simp add: fun_upd_def)
next
  case (Cons bu us)
  obtain b u where bu: "bu = (b, u)" by (cases bu)
  from Cons.prems(2) have n: "n \<noteq> 0" "length us \<le> n - 1" by auto
  from Cons.prems(1) bu have hb: "key_local (h b) = None"
    "key_sections (h b) = Some [ident (chain_of us a t r)]"
    and below: "holds h (chain_of us a t r)"
    by simp_all
  from Cons.IH[OF below n(2)] hb n(1) bu show ?case by simp
qed

lemma in_place_sections_chain_deep:
  assumes "holds h (chain_of us a t r)" and "n < length us"
  shows "rename_sections_in_place n sp [ident (chain_of us a t r)] h = Inl RecursionError"
  using assms
proof (induction us arbitrary: n)
  case Nil
  then show ?case by simp
next
  case (Cons bu us)
  obtain b u where bu: "bu = (b, u)" by (cases bu)
  from Cons.prems(1) bu have hb: "key_local (h b) = None"
    "key_sections (h b) = Some [ident (chain_of us a t r)]"
    and below: "holds h (chain_of us a t r)"
    by simp_all
  show ?case
  proof (cases "n = 0")
    case True
    with hb bu show ?thesis by simp
  next
    case False
    with Cons.prems(2) have "n - 1 < length us" by auto
    from Cons.IH[OF below this] hb False bu show ?thesis by simp
  qed
qed

text \<open>
  Why the table must not share a mapping: in \<open>shared_heap\<close> the leaf Intro stands twice in
  the sections of Optimum Acme, the loop reaches it twice, and line 32 prefixes it twice.
\<close>

lemma shared_leaf_prefixed_twice:
  "map_sum id (\<lambda>h. key_local (h 1)) (rename_subpackage_toc_in_place 990 ''acme'' [0] shared_heap)
     = Inr (Some ''acme/acme/intro'')"
  by (simp add: shared_heap_def no_dict_def)

section \<open>What the section rewrite does\<close>

lemma value_of_prefix_leaves_of_list:
  "map value_of (map (prefix_leaves_of sp) os) = map (prefix_leaves sp) (map value_of os)"
  by (simp add: value_of_prefix_leaves_of)

text \<open>
  C2, as stated: in every tree whose nodes are leaves or internal nodes and never both, one
  application of the rewrite prefixes every leaf once. The rewrite reads
  \<^verbatim>\<open>item["sections"]\<close> of every top-level entry, so the table that is the single leaf Home
  satisfies the premise and makes the rewrite raise \<^verbatim>\<open>KeyError\<close>, in place and on values.
\<close>

theorem rename_top_level_leaf_counterexample:
  "holds home_heap (Obj 0 (Some ''Home'') (Some ''index'') None None) \<and>
   leaf_xor_internal (value_of (Obj 0 (Some ''Home'') (Some ''index'') None None)) \<and>
   rename_subpackage_toc_in_place 990 ''acme''
     [ident (Obj 0 (Some ''Home'') (Some ''index'') None None)] home_heap = Inl KeyError \<and>
   rename_subpackage_toc 990 ''acme''
     [value_of (Obj 0 (Some ''Home'') (Some ''index'') None None)] = Inl KeyError"
  by (simp add: home_heap_def no_dict_def)

text \<open>
  C2, amended: take a table of contents whose nodes are leaves or internal nodes and never
  both, whose top-level entries are all internal nodes, in which no mapping stands at two
  places (the addresses of its objects are distinct), and whose sections are nested at most
  \<open>n + 1\<close> levels deep, \<open>n\<close> being the number of nested calls the interpreter allows. One
  application of the rewrite succeeds and prefixes the reference of every leaf with the
  subpackage and a slash exactly once: afterwards the heap holds the table with
  \<open>prefix_leaves_of\<close> applied, every other object is as before, the rewrite on values
  returns the same table, and the references are the old ones, each prefixed, in the same
  order.
\<close>

theorem rename_prefixes_every_leaf_once:
  assumes "\<forall>ob \<in> set os. holds h ob"
    and "distinct (concat (map addrs os))"
    and "\<forall>ob \<in> set os. leaf_xor_internal (value_of ob)"
    and "\<forall>ob \<in> set os. sections (value_of ob) \<noteq> None"
    and "\<forall>ob \<in> set os. height (value_of ob) \<le> Suc n"
  shows "\<exists>h'. rename_subpackage_toc_in_place n s (map ident os) h = Inr h' \<and>
           (\<forall>ob \<in> set os. holds h' (prefix_leaves_of s ob)) \<and>
           (\<forall>a. a \<notin> set (concat (map addrs os)) \<longrightarrow> h' a = h a) \<and>
           rename_subpackage_toc n s (map value_of os)
             = Inr (map value_of (map (prefix_leaves_of s) os)) \<and>
           concat (map locals (map value_of (map (prefix_leaves_of s) os)))
             = map (\<lambda>r. s @ ''/'' @ r) (concat (map locals (map value_of os)))"
proof -
  from in_place_items[OF assms(1,3,4,5,2), of s]
  obtain h' where h': "rename_subpackage_toc_in_place n s (map ident os) h = Inr h'"
    "\<forall>ob \<in> set os. holds h' (prefix_leaves_of s ob)"
    "\<forall>a. a \<notin> set (concat (map addrs os)) \<longrightarrow> h' a = h a"
    by blast
  have T: "\<forall>e \<in> set (map value_of os).
             leaf_xor_internal e \<and> sections e \<noteq> None \<and> height e \<le> Suc n"
    using assms(3,4,5) by simp
  with rename_prefix_leaves(1)[of "map value_of os" n s]
  have v: "rename_subpackage_toc n s (map value_of os)
             = Inr (map value_of (map (prefix_leaves_of s) os))"
    unfolding value_of_prefix_leaves_of_list by blast
  have "\<forall>e \<in> set (map value_of os). leaf_xor_internal e" using T by blast
  from locals_prefix_leaves_list[OF this, of s]
  have "concat (map locals (map value_of (map (prefix_leaves_of s) os)))
          = map (\<lambda>r. s @ ''/'' @ r) (concat (map locals (map value_of os)))"
    unfolding value_of_prefix_leaves_of_list .
  with h' v show ?thesis by blast
qed

theorem rename_prefixes_every_leaf_once_witness:
  "holds example_heap
     (Obj 0 (Some ''Optimum Acme'') None
        (Some [Obj 1 (Some ''Intro'') (Some ''intro'') None None,
               Obj 2 (Some ''Guides'') None
                 (Some [Obj 3 (Some ''Use'') (Some ''use'') None None]) None])
        None) \<and>
   distinct [0, 1, 2, 3 :: nat] \<and>
   (\<exists>h'. rename_subpackage_toc_in_place 990 ''acme'' [0] example_heap = Inr h' \<and>
      holds h'
        (Obj 0 (Some ''Optimum Acme'') None
           (Some [Obj 1 (Some ''Intro'') (Some ''acme/intro'') None None,
                  Obj 2 (Some ''Guides'') None
                    (Some [Obj 3 (Some ''Use'') (Some ''acme/use'') None None]) None])
           None) \<and>
      h' 4 = example_heap 4) \<and>
   rename_subpackage_toc 990 ''acme''
     [Entry (Some ''Optimum Acme'') None
        (Some [Entry (Some ''Intro'') (Some ''intro'') None None,
               Entry (Some ''Guides'') None
                 (Some [Entry (Some ''Use'') (Some ''use'') None None]) None])
        None]
   = Inr [Entry (Some ''Optimum Acme'') None
            (Some [Entry (Some ''Intro'') (Some ''acme/intro'') None None,
                   Entry (Some ''Guides'') None
                     (Some [Entry (Some ''Use'') (Some ''acme/use'') None None]) None])
            None]"
proof -
  let ?o = "Obj 0 (Some ''Optimum Acme'') None
        (Some [Obj 1 (Some ''Intro'') (Some ''intro'') None None,
               Obj 2 (Some ''Guides'') None
                 (Some [Obj 3 (Some ''Use'') (Some ''use'') None None]) None])
        None"
  have 1: "\<forall>ob \<in> set [?o]. holds example_heap ob"
    by (simp add: example_heap_def no_dict_def)
  have 2: "distinct (concat (map addrs [?o]))" by simp
  have 3: "\<forall>ob \<in> set [?o]. leaf_xor_internal (value_of ob)" by simp
  have 4: "\<forall>ob \<in> set [?o]. sections (value_of ob) \<noteq> None" by simp
  have 5: "\<forall>ob \<in> set [?o]. height (value_of ob) \<le> Suc 990" by simp
  from rename_prefixes_every_leaf_once [OF 1 2 3 4 5, of "''acme''"] 1
  show ?thesis by simp
qed

text \<open>
  C3, as stated: for every depth \<open>d \<ge> 1\<close>, also \<open>d = 1\<close>, the leaf of a chain of depth \<open>d\<close>
  is prefixed once. The chain of depth 1 is a single top-level leaf, and the rewrite raises
  \<^verbatim>\<open>KeyError\<close> on it, in place and on values.
\<close>

theorem rename_chain_depth_one_counterexample:
  "length ([] :: (addr \<times> string) list) + 1 = 1 \<and>
   holds home_heap (chain_of [] 0 ''Home'' ''index'') \<and>
   rename_subpackage_toc_in_place 990 ''acme'' [ident (chain_of [] 0 ''Home'' ''index'')]
     home_heap = Inl KeyError \<and>
   rename_subpackage_toc 990 ''acme'' [value_of (chain_of [] 0 ''Home'' ''index'')]
     = Inl KeyError"
  by (simp add: home_heap_def no_dict_def)

text \<open>
  C3, amended: for every depth \<open>d\<close> from 2 to \<open>n + 2\<close>, \<open>n\<close> being the number of nested
  calls the interpreter allows, the rewrite of a table of contents that is one chain of
  depth \<open>d\<close> succeeds and prefixes the reference of its leaf with the subpackage and a slash
  exactly once: in the heap the leaf gets the prefixed reference and nothing else changes,
  and the rewrite on values returns the same chain with the prefixed reference.
\<close>

theorem rename_chain_depth:
  assumes "holds h (chain_of us a t r)"
    and "2 \<le> d" and "length us + 1 = d" and "d \<le> n + 2"
  shows "rename_subpackage_toc_in_place n s [ident (chain_of us a t r)] h
           = Inr (h(a := (h a)\<lparr>key_local := Some (s @ ''/'' @ r)\<rparr>)) \<and>
         rename_subpackage_toc n s [value_of (chain_of us a t r)]
           = Inr [value_of (chain_of us a t (s @ ''/'' @ r))]"
proof -
  from assms(2,3) obtain b u us' where us: "us = (b, u) # us'"
    by (cases us) auto
  from assms(3,4) us have len: "length us' \<le> n" by simp
  from assms(1) us have hb: "key_sections (h b) = Some [ident (chain_of us' a t r)]"
    and below: "holds h (chain_of us' a t r)" by simp_all
  from in_place_sections_chain[OF below len, of s] hb us
  have "rename_subpackage_toc_in_place n s [ident (chain_of us a t r)] h
          = Inr (h(a := (h a)\<lparr>key_local := Some (s @ ''/'' @ r)\<rparr>))"
    by simp
  moreover from rename_sections_chain[OF len, of s a t r] us
  have "rename_subpackage_toc n s [value_of (chain_of us a t r)]
          = Inr [value_of (chain_of us a t (s @ ''/'' @ r))]"
    by simp
  ultimately show ?thesis by blast
qed

theorem rename_chain_depth_witness:
  "holds chain_heap (chain_of [(0, ''Optimum Acme''), (1, ''Guides'')] 2 ''Use'' ''use'') \<and>
   (2::nat) \<le> 3 \<and> length [(0::nat, ''Optimum Acme''), (1, ''Guides'')] + 1 = 3 \<and>
   (3::nat) \<le> 990 + 2 \<and>
   rename_subpackage_toc_in_place 990 ''acme'' [0] chain_heap
     = Inr (chain_heap(2 := \<lparr>key_title = Some ''Use'', key_local = Some ''acme/use'',
                              key_sections = None, key_isExpanded = None\<rparr>)) \<and>
   rename_subpackage_toc 990 ''acme''
     [Entry (Some ''Optimum Acme'') None
        (Some [Entry (Some ''Guides'') None
                 (Some [Entry (Some ''Use'') (Some ''use'') None None]) None]) None]
   = Inr [Entry (Some ''Optimum Acme'') None
            (Some [Entry (Some ''Guides'') None
                     (Some [Entry (Some ''Use'') (Some ''acme/use'') None None]) None]) None]"
proof -
  have 1: "holds chain_heap (chain_of [(0, ''Optimum Acme''), (1, ''Guides'')] 2 ''Use'' ''use'')"
    by (simp add: chain_heap_def no_dict_def)
  have 2: "(2::nat) \<le> 3" by simp
  have 3: "length [(0::nat, ''Optimum Acme''), (1, ''Guides'')] + 1 = 3" by simp
  have 4: "(3::nat) \<le> 990 + 2" by simp
  have 5: "chain_heap 2 = \<lparr>key_title = Some ''Use'', key_local = Some ''use'',
                            key_sections = None, key_isExpanded = None\<rparr>"
    by (simp add: chain_heap_def)
  from rename_chain_depth [OF 1 2 3 4, of "''acme''"] 1 5 show ?thesis by simp
qed

text \<open>
  The bound on the depth is sharp: on a deeper chain the interpreter runs out of frames.
\<close>

lemma rename_chain_too_deep:
  assumes "holds h (chain_of us a t r)" and "n + 2 < length us + 1"
  shows "rename_subpackage_toc_in_place n s [ident (chain_of us a t r)] h
           = Inl RecursionError"
proof -
  from assms(2) obtain b u us' where us: "us = (b, u) # us'"
    by (cases us) auto
  from assms(2) us have len: "n < length us'" by simp
  from assms(1) us have hb: "key_sections (h b) = Some [ident (chain_of us' a t r)]"
    and below: "holds h (chain_of us' a t r)" by simp_all
  from in_place_sections_chain_deep[OF below len, of s] hb us show ?thesis by simp
qed

text \<open>
  C9: whenever the rewrite accepts a table of contents, the result differs from it in the
  strings stored under \<^verbatim>\<open>local\<close> only: with these blanked, both trees are the same, so
  every title, every \<^verbatim>\<open>isExpanded\<close> flag, the length of every list of sections and the
  nesting are unchanged.
\<close>

theorem rename_changes_only_locals:
  assumes "rename_subpackage_toc n s T = Inr T'"
  shows "map skeleton T' = map skeleton T"
  using assms rename_skeleton(1)[of n s T T'] by blast

theorem rename_changes_only_locals_witness:
  "rename_subpackage_toc 990 ''acme''
     [Entry (Some ''Optimum Acme'') (Some ''top'')
        (Some [Entry (Some ''Intro'') (Some ''intro'') None (Some True),
               Entry (Some ''Guides'') None (Some []) None])
        (Some False)]
   = Inr [Entry (Some ''Optimum Acme'') (Some ''top'')
            (Some [Entry (Some ''Intro'') (Some ''acme/intro'') None (Some True),
                   Entry (Some ''Guides'') None (Some []) None])
            (Some False)] \<and>
   map skeleton
     [Entry (Some ''Optimum Acme'') (Some ''top'')
        (Some [Entry (Some ''Intro'') (Some ''acme/intro'') None (Some True),
               Entry (Some ''Guides'') None (Some []) None])
        (Some False)]
   = map skeleton
       [Entry (Some ''Optimum Acme'') (Some ''top'')
          (Some [Entry (Some ''Intro'') (Some ''intro'') None (Some True),
                 Entry (Some ''Guides'') None (Some []) None])
          (Some False)]"
proof -
  have r: "rename_subpackage_toc 990 ''acme''
     [Entry (Some ''Optimum Acme'') (Some ''top'')
        (Some [Entry (Some ''Intro'') (Some ''intro'') None (Some True),
               Entry (Some ''Guides'') None (Some []) None])
        (Some False)]
   = Inr [Entry (Some ''Optimum Acme'') (Some ''top'')
            (Some [Entry (Some ''Intro'') (Some ''acme/intro'') None (Some True),
                   Entry (Some ''Guides'') None (Some []) None])
            (Some False)]"
    by simp
  from r rename_changes_only_locals [OF r] show ?thesis by blast
qed

section \<open>The title\<close>

lemma prefix_occurs_at: "prefix sep (drop i s) \<longleftrightarrow> occurs_at sep i s"
  unfolding occurs_at_def
  by (metis append_take_drop_id prefixI prefix_length_prefix take_is_prefix length_take min.cobounded2 prefix_order.eq_iff append_eq_conv_conj prefixE)

lemma occurs_at_Cons: "occurs_at sep (Suc j) (c # cs) = occurs_at sep j cs"
  by (simp add: occurs_at_def)

lemma occurs_at_drop: "occurs_at sep (k + j) s = occurs_at sep j (drop k s)"
  by (simp add: occurs_at_def add.commute)

lemma split_from_no_occurrence:
  "sep \<noteq> [] \<Longrightarrow> \<forall>j. \<not> occurs_at sep j s \<Longrightarrow> split_from sep cur s = [cur @ s]"
proof (induction s arbitrary: cur)
  case Nil
  show ?case by simp
next
  case (Cons c cs)
  from Cons.prems(2) have "\<not> occurs_at sep 0 (c # cs)" by blast
  then have n: "\<not> prefix sep (c # cs)" using prefix_occurs_at[of sep 0 "c # cs"] by simp
  have "\<forall>j. \<not> occurs_at sep j cs"
    using Cons.prems(2) occurs_at_Cons by blast
  with Cons.IH[OF Cons.prems(1)] have "split_from sep (cur @ [c]) cs = [(cur @ [c]) @ cs]" by blast
  with n show ?case by simp
qed

lemma optimum_unbordered:
  assumes "occurs_at ''Optimum '' 0 s" "occurs_at ''Optimum '' i s" "0 < i"
  shows "8 \<le> i"
proof (rule ccontr)
  assume "\<not> 8 \<le> i"
  with assms(3) consider "i = 1" | "i = 2" | "i = 3" | "i = 4" | "i = 5" | "i = 6" | "i = 7"
    by linarith
  moreover obtain rest where s: "s = ''Optimum '' @ rest"
    using assms(1) by (metis append_take_drop_id drop0 occurs_at_def)
  ultimately show False using assms(2) unfolding s occurs_at_def
    by cases simp_all
qed


lemma split_from_nonempty: "split_from sep cur s \<noteq> []"
  by (induction sep cur s rule: split_from.induct) auto

lemma last_split_from_optimum:
  "sep = ''Optimum '' \<Longrightarrow> occurs_at sep i s \<Longrightarrow> \<forall>j>i. \<not> occurs_at sep j s \<Longrightarrow>
     last (split_from sep cur s) = drop (i + 8) s"
proof (induction sep cur s arbitrary: i rule: split_from.induct)
  case (1 sep cur)
  then show ?case by (simp add: occurs_at_def)
next
  case (2 sep cur c cs)
  have sep: "sep \<noteq> []" "length sep = 8" using "2.prems"(1) by simp_all
  show ?case
  proof (cases "prefix sep (c # cs)")
    case True
    then have here: "occurs_at sep 0 (c # cs)"
      using prefix_occurs_at[of sep 0 "c # cs"] by simp
    have eq: "split_from sep cur (c # cs) = cur # split_from sep [] (drop 8 (c # cs))"
      using True sep by simp
    show ?thesis
    proof (cases "i = 0")
      case True
      have "\<forall>j. \<not> occurs_at sep j (drop 8 (c # cs))"
      proof
        fix j
        have "\<not> occurs_at sep (8 + j) (c # cs)" using "2.prems"(3) True by simp
        then show "\<not> occurs_at sep j (drop 8 (c # cs))"
          unfolding occurs_at_drop .
      qed
      then have "split_from sep [] (drop 8 (c # cs)) = [[] @ drop 8 (c # cs)]"
        by (rule split_from_no_occurrence[OF sep(1)])
      with eq True show ?thesis by simp
    next
      case False
      then have "8 \<le> i"
        using optimum_unbordered[of "c # cs" i] here "2.prems"(1,2) by simp
      then obtain k where k: "i = 8 + k" using le_Suc_ex by blast
      have a: "occurs_at sep k (drop 8 (c # cs))"
        using "2.prems"(2) unfolding k occurs_at_drop .
      have b: "\<forall>j>k. \<not> occurs_at sep j (drop 8 (c # cs))"
      proof (intro allI impI)
        fix j assume "k < j"
        then have "\<not> occurs_at sep (8 + j) (c # cs)" using "2.prems"(3) k by simp
        then show "\<not> occurs_at sep j (drop 8 (c # cs))" unfolding occurs_at_drop .
      qed
      have c: "sep \<noteq> [] \<and> prefix sep (c # cs)" using True sep by simp
      have "last (split_from sep [] (drop (length sep) (c # cs))) =
              drop (k + 8) (drop (length sep) (c # cs))"
        using "2.IH"(1)[OF c "2.prems"(1), of k] a b unfolding sep(2) by blast
      then have l: "last (split_from sep [] (drop 8 (c # cs))) = drop (k + 8) (drop 8 (c # cs))"
        unfolding sep(2) .
      have d: "drop (k + 8) (drop 8 (c # cs)) = drop (i + 8) (c # cs)"
        unfolding k drop_drop by (simp only: ac_simps)
      have "split_from sep [] (drop 8 (c # cs)) \<noteq> []" by (rule split_from_nonempty)
      then have "last (cur # split_from sep [] (drop 8 (c # cs))) =
                   last (split_from sep [] (drop 8 (c # cs)))"
        by (rule last_ConsR)
      then show ?thesis unfolding eq l d .
    qed
  next
    case False
    then have "\<not> occurs_at sep 0 (c # cs)"
      using prefix_occurs_at[of sep 0 "c # cs"] by simp
    with "2.prems"(2) obtain k where k: "i = Suc k"
      by (cases i) auto
    have a: "occurs_at sep k cs" using "2.prems"(2) k occurs_at_Cons by simp
    have b: "\<forall>j>k. \<not> occurs_at sep j cs"
    proof (intro allI impI)
      fix j assume "k < j"
      then have "\<not> occurs_at sep (Suc j) (c # cs)" using "2.prems"(3) k by simp
      then show "\<not> occurs_at sep j cs" by (simp add: occurs_at_Cons)
    qed
    have c: "\<not> (sep \<noteq> [] \<and> prefix sep (c # cs))" using False by simp
    have "last (split_from sep (cur @ [c]) cs) = drop (k + 8) cs"
      using "2.IH"(2)[OF c "2.prems"(1) a b] .
    moreover have "drop (i + 8) (c # cs) = drop (k + 8) cs"
      unfolding k by (simp only: add_Suc drop_Suc_Cons)
    moreover have "split_from sep cur (c # cs) = split_from sep (cur @ [c]) cs"
      using False by simp
    ultimately show ?thesis by (simp only:)
  qed
qed

lemma occurs_at_short:
  assumes "sep \<noteq> []" and "length s < length sep + j"
  shows "\<not> occurs_at sep j s"
proof
  assume "occurs_at sep j s"
  then have "length (take (length sep) (drop j s)) = length sep"
    by (simp only: occurs_at_def)
  then have "length sep \<le> length s - j" by simp
  moreover have "0 < length sep" using assms(1) by simp
  ultimately show False using assms(2) by arith
qed

text \<open>
  C5: when the title of the first entry contains \<^verbatim>\<open>"Optimum "\<close>, with its last occurrence
  at index \<open>i\<close>, the title-shortening step replaces the title with exactly what follows
  that occurrence, and leaves the rest of the table of contents as it is.
\<close>

theorem shorten_title_after_last_occurrence:
  assumes "occurs_at ''Optimum '' i long"
    and "\<forall>j>i. \<not> occurs_at ''Optimum '' j long"
  shows "shorten_title (Entry (Some long) l s x # rest)
           = Inr (Entry (Some (drop (i + 8) long)) l s x # rest)"
proof -
  have "last (split_from ''Optimum '' [] long) = drop (i + 8) long"
    using assms by (rule last_split_from_optimum[OF refl])
  moreover have "split_from ''Optimum '' [] long \<noteq> []" by (rule split_from_nonempty)
  ultimately show ?thesis
    by (simp add: shorten_title_def last_item_def str_split_def)
qed

theorem shorten_title_after_last_occurrence_witness:
  "occurs_at ''Optimum '' 8 ''Optimum Optimum Acme'' \<and>
   \<not> (\<exists>j>8. occurs_at ''Optimum '' j ''Optimum Optimum Acme'') \<and>
   shorten_title [Entry (Some ''Optimum Optimum Acme'') None (Some []) None]
     = Inr [Entry (Some ''Acme'') None (Some []) None]"
proof -
  have a: "occurs_at ''Optimum '' 8 ''Optimum Optimum Acme''"
    by (simp add: occurs_at_def)
  have b: "\<forall>j>8. \<not> occurs_at ''Optimum '' j ''Optimum Optimum Acme''"
  proof (intro allI impI)
    fix j :: nat assume "8 < j"
    then consider "j = 9" | "j = 10" | "j = 11" | "j = 12" | "12 < j" by linarith
    then show "\<not> occurs_at ''Optimum '' j ''Optimum Optimum Acme''"
    proof cases
      case 5
      then show ?thesis by (intro occurs_at_short) simp_all
    qed (simp_all add: occurs_at_def)
  qed
  from a b shorten_title_after_last_occurrence [OF a b, of None "Some []" None "[]"]
  show ?thesis by simp
qed

text \<open>
  C10: when the title of the first entry does not contain \<^verbatim>\<open>"Optimum "\<close>, the
  title-shortening step succeeds and leaves the title, and the whole table of contents,
  unchanged.
\<close>

theorem shorten_title_without_optimum:
  assumes "\<forall>j. \<not> occurs_at ''Optimum '' j long"
  shows "shorten_title (Entry (Some long) l s x # rest) = Inr (Entry (Some long) l s x # rest)"
proof -
  have "split_from ''Optimum '' [] long = [[] @ long]"
    using assms by (intro split_from_no_occurrence) simp_all
  then show ?thesis
    by (simp add: shorten_title_def last_item_def str_split_def)
qed

theorem shorten_title_without_optimum_witness:
  "(\<forall>j. \<not> occurs_at ''Optimum '' j ''Acme'') \<and>
   shorten_title [Entry (Some ''Acme'') None (Some []) None]
     = Inr [Entry (Some ''Acme'') None (Some []) None]"
proof -
  have a: "\<forall>j. \<not> occurs_at ''Optimum '' j ''Acme''"
    by (intro allI occurs_at_short) simp_all
  from a shorten_title_without_optimum [OF a, of None "Some []" None "[]"]
  show ?thesis by simp
qed

section \<open>The relocation of the HTML files\<close>






section \<open>The loop of \<^verbatim>\<open>main\<close>\<close>

lemma Path_doc_build [simp]:
  "Path ''graphcore-doc-build'' = [''graphcore-doc-build'']"
  "Path ''acme-doc-build'' = [''acme-doc-build'']"
  "Path ''optimum-doc-build'' = [''optimum-doc-build'']"
  by (simp_all add: Path_def str_split_def)

lemma load_subpackage_toc_history:
  "fst (load_subpackage_toc m v sp h) =
     fst (rename_copy_subpackage_html_paths m sp (Path (sp @ ''-doc-build'')) optimum_path v h)"
  unfolding load_subpackage_toc_def Let_def
  by (simp split: prod.splits option.splits list.splits sum.splits)

lemmas run_defs = example_disk_def loop_body_def load_subpackage_toc_def
  rename_copy_subpackage_html_paths_def Path_def str_split_def new_path_in_optimum_def
  path_str_def parent_def language_folder_level_def list_insert_def shorten_title_def
  last_item_def optimum_path_def add_neuron_doc_def main_loop_def

lemma loop_body_inserts:
  assumes "sp \<noteq> ''neuron''" and "sp \<noteq> ''graphcore''"
    and "loop_body m v sp s = (s', None)"
  shows "\<exists>e rest. load_subpackage_toc m v sp (history s) = (history s', Inr (e # rest)) \<and>
           base_toc s' = list_insert 1 e (base_toc s)"
proof -
  obtain h' r where l: "load_subpackage_toc m v sp (history s) = (h', r)"
    by (cases "load_subpackage_toc m v sp (history s)")
  show ?thesis
  proof (cases r)
    case (Inl e)
    with assms l show ?thesis by (simp add: loop_body_def)
  next
    case (Inr toc)
    show ?thesis
    proof (cases toc)
      case Nil
      with assms l Inr show ?thesis by (simp add: loop_body_def)
    next
      case (Cons e rest)
      with assms l Inr have "s' = \<lparr>base_toc = list_insert 1 e (base_toc s), history = h'\<rparr>"
        by (simp add: loop_body_def)
      with l Inr Cons show ?thesis by simp
    qed
  qed
qed

lemma for_each_Cons_ok:
  assumes "for_each m v (sp # sps) s = (s', None)"
  shows "\<exists>s1. loop_body m v sp s = (s1, None) \<and> for_each m v sps s1 = (s', None)"
proof -
  obtain s1 r where l: "loop_body m v sp s = (s1, r)" by (cases "loop_body m v sp s")
  with assms show ?thesis by (cases r) simp_all
qed

text \<open>
  C1: for subpackages \<open>[A, B, C]\<close>, none of them \<^verbatim>\<open>graphcore\<close> or \<^verbatim>\<open>neuron\<close>, and a table
  of contents of Optimum with first entry \<open>p\<close>: when the loop finishes, the three tables
  of contents were loaded in the order C, B, A, and their first entries stand right behind
  \<open>p\<close> in the order A, B, C, with the rest of the old table behind them.
\<close>

theorem main_loop_keeps_caller_order:
  assumes "A \<noteq> ''graphcore''" "A \<noteq> ''neuron''"
    and "B \<noteq> ''graphcore''" "B \<noteq> ''neuron''"
    and "C \<noteq> ''graphcore''" "C \<noteq> ''neuron''"
    and "main_loop m v [A, B, C] s0 = (s3, None)"
    and "base_toc s0 = p # ps"
  shows "\<exists>h1 h2 eA rA eB rB eC rC.
           load_subpackage_toc m v C (history s0) = (h1, Inr (eC # rC)) \<and>
           load_subpackage_toc m v B h1 = (h2, Inr (eB # rB)) \<and>
           load_subpackage_toc m v A h2 = (history s3, Inr (eA # rA)) \<and>
           base_toc s3 = p # eA # eB # eC # ps"
proof -
  from assms(7) have "for_each m v [C, B, A] s0 = (s3, None)"
    by (simp add: main_loop_def)
  then obtain s1 where 1: "loop_body m v C s0 = (s1, None)"
    and r1: "for_each m v [B, A] s1 = (s3, None)"
    using for_each_Cons_ok by blast
  from r1 obtain s2 where 2: "loop_body m v B s1 = (s2, None)"
    and r2: "for_each m v [A] s2 = (s3, None)"
    using for_each_Cons_ok by blast
  from r2 obtain s3' where 3: "loop_body m v A s2 = (s3', None)"
    and r3: "for_each m v [] s3' = (s3, None)"
    using for_each_Cons_ok by blast
  from r3 have s3: "s3' = s3" by simp
  from loop_body_inserts[OF assms(6,5) 1] obtain eC rC where
    c: "load_subpackage_toc m v C (history s0) = (history s1, Inr (eC # rC))"
       "base_toc s1 = list_insert 1 eC (base_toc s0)" by blast
  from loop_body_inserts[OF assms(4,3) 2] obtain eB rB where
    b: "load_subpackage_toc m v B (history s1) = (history s2, Inr (eB # rB))"
       "base_toc s2 = list_insert 1 eB (base_toc s1)" by blast
  from loop_body_inserts[OF assms(2,1) 3] s3 obtain eA rA where
    a: "load_subpackage_toc m v A (history s2) = (history s3, Inr (eA # rA))"
       "base_toc s3 = list_insert 1 eA (base_toc s2)" by blast
  have "base_toc s3 = p # eA # eB # eC # ps"
    using a(2) b(2) c(2) assms(8) by (simp add: list_insert_def)
  with a(1) b(1) c(1) show ?thesis by blast
qed

theorem main_loop_keeps_caller_order_witness:
  "''habana'' \<noteq> ''graphcore'' \<and> ''habana'' \<noteq> ''neuron'' \<and>
   ''intel'' \<noteq> ''graphcore'' \<and> ''intel'' \<noteq> ''neuron'' \<and>
   ''acme'' \<noteq> ''graphcore'' \<and> ''acme'' \<noteq> ''neuron'' \<and>
   base_toc \<lparr>base_toc = [Entry (Some ''Home'') (Some ''index'') None None,
                          Entry (Some ''Other'') (Some ''other'') None None],
             history = []\<rparr>
     = Entry (Some ''Home'') (Some ''index'') None None
       # [Entry (Some ''Other'') (Some ''other'') None None] \<and>
   fst (main_loop example_disk ''main'' [''habana'', ''intel'', ''acme'']
     \<lparr>base_toc = [Entry (Some ''Home'') (Some ''index'') None None,
                  Entry (Some ''Other'') (Some ''other'') None None],
      history = []\<rparr>)
   = \<lparr>base_toc =
        [Entry (Some ''Home'') (Some ''index'') None None,
         Entry (Some ''habana-doc-build'') None
           (Some [Entry (Some ''Intro'') (Some ''habana/intro'') None None]) None,
         Entry (Some ''intel-doc-build'') None
           (Some [Entry (Some ''Intro'') (Some ''intel/intro'') None None]) None,
         Entry (Some ''Acme'') None
           (Some [Entry (Some ''Intro'') (Some ''acme/intro'') None None]) None,
         Entry (Some ''Other'') (Some ''other'') None None],
      history =
        [Mkdir [''optimum-doc-build'', ''optimum'', ''main'', ''en'', ''acme''],
         Copyfile [''acme-doc-build'', ''optimum.x'', ''main'', ''en'', ''index.html'']
           [''optimum-doc-build'', ''optimum'', ''main'', ''en'', ''acme'', ''index.html''],
         Mkdir [''optimum-doc-build'', ''optimum'', ''main'', ''en'', ''intel''],
         Copyfile [''intel-doc-build'', ''optimum.x'', ''main'', ''en'', ''index.html'']
           [''optimum-doc-build'', ''optimum'', ''main'', ''en'', ''intel'', ''index.html''],
         Mkdir [''optimum-doc-build'', ''optimum'', ''main'', ''en'', ''habana''],
         Copyfile [''habana-doc-build'', ''optimum.x'', ''main'', ''en'', ''index.html'']
           [''optimum-doc-build'', ''optimum'', ''main'', ''en'', ''habana'', ''index.html'']]\<rparr> \<and>
   (\<exists>h1 h2 eA rA eB rB eC rC.
      load_subpackage_toc example_disk ''main'' ''acme'' [] = (h1, Inr (eC # rC)) \<and>
      load_subpackage_toc example_disk ''main'' ''intel'' h1 = (h2, Inr (eB # rB)) \<and>
      load_subpackage_toc example_disk ''main'' ''habana'' h2
        = (history (fst (main_loop example_disk ''main'' [''habana'', ''intel'', ''acme'']
             \<lparr>base_toc = [Entry (Some ''Home'') (Some ''index'') None None,
                          Entry (Some ''Other'') (Some ''other'') None None],
              history = []\<rparr>)),
           Inr (eA # rA)) \<and>
      base_toc (fst (main_loop example_disk ''main'' [''habana'', ''intel'', ''acme'']
             \<lparr>base_toc = [Entry (Some ''Home'') (Some ''index'') None None,
                          Entry (Some ''Other'') (Some ''other'') None None],
              history = []\<rparr>))
        = Entry (Some ''Home'') (Some ''index'') None None # eA # eB # eC
          # [Entry (Some ''Other'') (Some ''other'') None None])"
  (is "?a1 \<and> ?a2 \<and> ?b1 \<and> ?b2 \<and> ?c1 \<and> ?c2 \<and> ?base \<and> ?run \<and> ?concl")
proof -
  let ?s0 = "\<lparr>base_toc = [Entry (Some ''Home'') (Some ''index'') None None,
                          Entry (Some ''Other'') (Some ''other'') None None],
             history = []\<rparr>"
  let ?r = "main_loop example_disk ''main'' [''habana'', ''intel'', ''acme''] ?s0"
  have names: ?a1 ?a2 ?b1 ?b2 ?c1 ?c2 by simp_all
  have base: ?base by simp
  have ok: "snd ?r = None" by (simp add: run_defs)
  have run: ?run by (simp add: run_defs)
  from ok have "?r = (fst ?r, None)" by (metis prod.collapse)
  from main_loop_keeps_caller_order [OF names this base] have ?concl by simp
  with names base run show ?thesis by blast
qed

text \<open>
  C4: with the table of contents of Optimum being the single entry Home, and the table of
  contents loaded for the subpackage \<^verbatim>\<open>acme\<close> being the entry Optimum Acme with the
  section Intro, the loop body for \<^verbatim>\<open>acme\<close> (relocation, rewrite, title shortening, insert
  at index 1) leaves exactly the entries Home and Acme, the latter with the reference
  \<^verbatim>\<open>acme/intro\<close>.
\<close>

theorem acme_example:
  assumes "rename_copy_subpackage_html_paths m ''acme'' [''acme-doc-build'']
             [''optimum-doc-build''] v h = (h', None)"
    and "rglob m h' [''acme-doc-build''] ''_toctree.yml'' = q # qs"
    and "safe_load m h' q =
           Some [Entry (Some ''Optimum Acme'') None
                   (Some [Entry (Some ''Intro'') (Some ''intro'') None None]) None]"
  shows "loop_body m v ''acme''
           \<lparr>base_toc = [Entry (Some ''Home'') (Some ''index'') None None], history = h\<rparr>
         = (\<lparr>base_toc = [Entry (Some ''Home'') (Some ''index'') None None,
                          Entry (Some ''Acme'') None
                            (Some [Entry (Some ''Intro'') (Some ''acme/intro'') None None])
                            None],
             history = h'\<rparr>, None)"
  using assms
  by (simp add: loop_body_def load_subpackage_toc_def optimum_path_def shorten_title_def
        last_item_def str_split_def list_insert_def)

theorem acme_example_witness:
  "rename_copy_subpackage_html_paths example_disk ''acme'' [''acme-doc-build'']
     [''optimum-doc-build''] ''main'' []
   = ([Mkdir [''optimum-doc-build'', ''optimum'', ''main'', ''en'', ''acme''],
       Copyfile [''acme-doc-build'', ''optimum.x'', ''main'', ''en'', ''index.html'']
         [''optimum-doc-build'', ''optimum'', ''main'', ''en'', ''acme'', ''index.html'']],
      None) \<and>
   rglob example_disk
     [Mkdir [''optimum-doc-build'', ''optimum'', ''main'', ''en'', ''acme''],
      Copyfile [''acme-doc-build'', ''optimum.x'', ''main'', ''en'', ''index.html'']
        [''optimum-doc-build'', ''optimum'', ''main'', ''en'', ''acme'', ''index.html'']]
     [''acme-doc-build''] ''_toctree.yml''
   = [''acme-doc-build'', ''_toctree.yml''] # [] \<and>
   safe_load example_disk
     [Mkdir [''optimum-doc-build'', ''optimum'', ''main'', ''en'', ''acme''],
      Copyfile [''acme-doc-build'', ''optimum.x'', ''main'', ''en'', ''index.html'']
        [''optimum-doc-build'', ''optimum'', ''main'', ''en'', ''acme'', ''index.html'']]
     [''acme-doc-build'', ''_toctree.yml'']
   = Some [Entry (Some ''Optimum Acme'') None
             (Some [Entry (Some ''Intro'') (Some ''intro'') None None]) None] \<and>
   loop_body example_disk ''main'' ''acme''
     \<lparr>base_toc = [Entry (Some ''Home'') (Some ''index'') None None], history = []\<rparr>
   = (\<lparr>base_toc = [Entry (Some ''Home'') (Some ''index'') None None,
                    Entry (Some ''Acme'') None
                      (Some [Entry (Some ''Intro'') (Some ''acme/intro'') None None]) None],
       history =
         [Mkdir [''optimum-doc-build'', ''optimum'', ''main'', ''en'', ''acme''],
          Copyfile [''acme-doc-build'', ''optimum.x'', ''main'', ''en'', ''index.html'']
            [''optimum-doc-build'', ''optimum'', ''main'', ''en'', ''acme'',
             ''index.html'']]\<rparr>, None)"
  (is "?copy \<and> ?glob \<and> ?load \<and> ?concl")
proof -
  have copy: ?copy
    by (simp add: example_disk_def rename_copy_subpackage_html_paths_def
          new_path_in_optimum_def Path_def str_split_def path_str_def parent_def
          language_folder_level_def)
  have glob: ?glob by (simp add: example_disk_def)
  have load: ?load by (simp add: example_disk_def)
  from acme_example [OF copy glob load] have ?concl .
  with copy glob load show ?thesis by blast
qed

text \<open>
  C6: the loop body for \<^verbatim>\<open>neuron\<close> raises nothing and performs no operation on the file
  system, so nothing is relocated. It inserts one entry at index 1 of the table of contents
  of Optimum, which grows by exactly this entry: the entry titled AWS Trainium/Inferentia,
  with \<^verbatim>\<open>isExpanded\<close> false, whose sections are a single leaf with the reference
  \<^verbatim>\<open>docs/optimum-neuron/index\<close>. In a table that has a first entry, the new entry stands
  right behind it (\<^verbatim>\<open>insert\<close> puts it at the end of a table that has none).
\<close>

theorem neuron_redirect_entry:
  assumes "loop_body m v ''neuron'' s = (s', r)"
    and "E = Entry (Some ''AWS Trainium/Inferentia'') None
               (Some [Entry (Some ([CHR 0xF0, CHR 0x9F, CHR 0xA4, CHR 0x97] @ '' Optimum Neuron''))
                        (Some ''docs/optimum-neuron/index'') None None])
               (Some False)"
  shows "r = None \<and> history s' = history s \<and>
         base_toc s' = list_insert 1 E (base_toc s) \<and>
         length (base_toc s') = length (base_toc s) + 1 \<and>
         (\<forall>p ps. base_toc s = p # ps \<longrightarrow> base_toc s' = p # E # ps)"
  using assms by (auto simp: loop_body_def add_neuron_doc_def list_insert_def)

theorem neuron_redirect_entry_witness:
  "loop_body example_disk ''main'' ''neuron''
     \<lparr>base_toc = [Entry (Some ''Home'') (Some ''index'') None None,
                  Entry (Some ''Other'') (Some ''other'') None None],
      history = []\<rparr>
   = (\<lparr>base_toc =
         [Entry (Some ''Home'') (Some ''index'') None None,
          Entry (Some ''AWS Trainium/Inferentia'') None
            (Some [Entry (Some ([CHR 0xF0, CHR 0x9F, CHR 0xA4, CHR 0x97] @ '' Optimum Neuron''))
                     (Some ''docs/optimum-neuron/index'') None None])
            (Some False),
          Entry (Some ''Other'') (Some ''other'') None None],
       history = []\<rparr>, None)"
proof -
  let ?s = "\<lparr>base_toc = [Entry (Some ''Home'') (Some ''index'') None None,
                          Entry (Some ''Other'') (Some ''other'') None None],
             history = []\<rparr>"
  obtain s' r where l: "loop_body example_disk ''main'' ''neuron'' ?s = (s', r)"
    by (cases "loop_body example_disk ''main'' ''neuron'' ?s")
  from neuron_redirect_entry [OF l refl]
  have "r = None" "history s' = []"
    "base_toc s' =
       [Entry (Some ''Home'') (Some ''index'') None None,
        Entry (Some ''AWS Trainium/Inferentia'') None
          (Some [Entry (Some ([CHR 0xF0, CHR 0x9F, CHR 0xA4, CHR 0x97] @ '' Optimum Neuron''))
                   (Some ''docs/optimum-neuron/index'') None None])
          (Some False),
        Entry (Some ''Other'') (Some ''other'') None None]"
    by (simp_all add: list_insert_def)
  with l show ?thesis by (cases s') simp
qed

text \<open>
  C7: the loop body for \<^verbatim>\<open>graphcore\<close>, whatever its outcome, leaves the table of contents
  of Optimum as it was, and the file system in the state in which the relocation of the
  HTML files of \<^verbatim>\<open>graphcore-doc-build\<close> has left it.
\<close>

theorem graphcore_relocated_not_inserted:
  assumes "loop_body m v ''graphcore'' s = (s', r)"
  shows "base_toc s' = base_toc s \<and>
         history s' =
           fst (rename_copy_subpackage_html_paths m ''graphcore'' [''graphcore-doc-build'']
                  [''optimum-doc-build''] v (history s))"
proof -
  obtain h' t where l: "load_subpackage_toc m v ''graphcore'' (history s) = (h', t)"
    by (cases "load_subpackage_toc m v ''graphcore'' (history s)")
  from load_subpackage_toc_history [of m v "''graphcore''" "history s"] l
  have h: "h' = fst (rename_copy_subpackage_html_paths m ''graphcore'' [''graphcore-doc-build'']
                  [''optimum-doc-build''] v (history s))"
    by (simp add: optimum_path_def)
  from assms l have "s' = s\<lparr>history := h'\<rparr>"
    by (cases t) (simp_all add: loop_body_def)
  with h show ?thesis by simp
qed

theorem graphcore_relocated_not_inserted_witness:
  "loop_body example_disk ''main'' ''graphcore''
     \<lparr>base_toc = [Entry (Some ''Home'') (Some ''index'') None None], history = []\<rparr>
   = (\<lparr>base_toc = [Entry (Some ''Home'') (Some ''index'') None None],
       history =
         [Mkdir [''optimum-doc-build'', ''optimum'', ''main'', ''en'', ''graphcore''],
          Copyfile [''graphcore-doc-build'', ''optimum.x'', ''main'', ''en'', ''index.html'']
            [''optimum-doc-build'', ''optimum'', ''main'', ''en'', ''graphcore'',
             ''index.html'']]\<rparr>, None) \<and>
   rename_copy_subpackage_html_paths example_disk ''graphcore'' [''graphcore-doc-build'']
     [''optimum-doc-build''] ''main'' []
   = ([Mkdir [''optimum-doc-build'', ''optimum'', ''main'', ''en'', ''graphcore''],
       Copyfile [''graphcore-doc-build'', ''optimum.x'', ''main'', ''en'', ''index.html'']
         [''optimum-doc-build'', ''optimum'', ''main'', ''en'', ''graphcore'',
          ''index.html'']], None)"
  (is "?run \<and> ?copy")
proof -
  have run: ?run by (simp add: run_defs)
  have copy: ?copy
    by (simp add: example_disk_def rename_copy_subpackage_html_paths_def
          new_path_in_optimum_def Path_def str_split_def path_str_def parent_def
          language_folder_level_def)
  from graphcore_relocated_not_inserted [OF run] copy have True by simp
  with run copy show ?thesis by blast
qed

end
